theory Spec2Isabelle
  imports Main "HOL-Library.Word"
begin

unbundle bit_operations_syntax

section \<open>FSFS item index (index.c): packed integers\<close>

type_synonym byte = "8 word"
type_synonym u64 = "64 word"

text \<open>
  \<^verbatim>\<open>encode_uint\<close>: seven bits per byte, least significant group first, the
  continuation bit \<open>0x80\<close> set in all but the final byte. The C function writes
  into a buffer and returns the number of bytes written; the model returns the
  bytes, whose length is that number.
\<close>

function encode_uint :: "u64 \<Rightarrow> byte list" where
  "encode_uint v =
     (if v \<ge> 0x80
      then ucast ((v mod 0x80) + 0x80) # encode_uint (v div 0x80)
      else [ucast (v mod 0x80)])"
  by pat_completeness auto
termination
proof (relation "measure unat")
  show "wf (measure unat)" by simp
next
  fix v :: u64
  assume "0x80 \<le> v"
  then have "128 \<le> unat v" by (simp add: word_le_nat_alt)
  then have "unat v div 128 < unat v" by simp
  then show "(v div 0x80, v) \<in> measure unat" by (simp add: unat_div)
qed

declare encode_uint.simps [simp del]

text \<open>
  \<^verbatim>\<open>encode_int\<close>: the signed value is mapped onto an unsigned one by
  \<open>value < 0 ? -1 - 2*value : 2*value\<close>. An \<open>apr_int64_t\<close> is modelled as a
  64-bit word read in two's complement; the arithmetic wraps modulo \<open>2^64\<close>.
\<close>

definition zigzag :: "u64 \<Rightarrow> u64" where
  "zigzag v = (if sint v < 0 then - 1 - 2 * v else 2 * v)"

definition encode_int :: "u64 \<Rightarrow> byte list" where
  "encode_int v = encode_uint (zigzag v)"

text \<open>\<^verbatim>\<open>decode_int\<close>: \<open>value % 2 ? -1 - value / 2 : value / 2\<close>.\<close>

definition decode_int :: "u64 \<Rightarrow> u64" where
  "decode_int v = (if v mod 2 \<noteq> 0 then - 1 - v div 2 else v div 2)"


section \<open>Errors\<close>

text \<open>
  The \<^verbatim>\<open>svn_error_t\<close> values the index code creates, by error code.
  \<open>Unexpected_EOF\<close> and \<open>IO_error\<close> come from \<^verbatim>\<open>stream_error_create\<close>
  (end of file, respectively a failing file operation), \<open>Assertion_failed\<close> from
  \<^verbatim>\<open>SVN_ERR_ASSERT\<close>. The last two are no \<^verbatim>\<open>svn_error_t\<close>: they mark the places
  where the C code reads or writes outside an array or divides by zero, where its
  behaviour is undefined.
\<close>

datatype error =
    IO_error
  | Unexpected_EOF
  | Item_index_corruption
  | Item_index_revision
  | Item_index_overflow
  | Assertion_failed
  | Out_of_bounds
  | Division_by_zero

section \<open>Packed number stream\<close>

text \<open>
  \<^verbatim>\<open>svn_fs_fs__packed_number_stream_t\<close>. The file behind the stream is a fixed
  byte list, passed to the operations that read it. \<^verbatim>\<open>apr_off_t\<close> file
  positions are integers (an index file is far smaller than \<open>2^63\<close> bytes),
  \<^verbatim>\<open>apr_size_t\<close> counts are naturals. A buffer entry is the pair
  (\<^verbatim>\<open>value\<close>, \<^verbatim>\<open>total_len\<close>) of \<^verbatim>\<open>value_position_pair_t\<close>.
\<close>

definition MAX_NUMBER_PREFETCH :: nat where
  "MAX_NUMBER_PREFETCH = 64"

record packed_number_stream =
  used :: nat
  current :: nat
  start_offset :: int
  next_offset :: int
  block_size :: int
  buffer :: "(u64 \<times> nat) list"

text \<open>
  \<^verbatim>\<open>packed_stream_open\<close>. The C code leaves \<^verbatim>\<open>buffer\<close> uninitialised; no
  operation reads an entry at or beyond \<^verbatim>\<open>used\<close>, the model fills it with zeros.
\<close>

definition packed_stream_open :: "int \<Rightarrow> packed_number_stream" where
  "packed_stream_open bs =
     \<lparr> used = 0, current = 0, start_offset = 0, next_offset = 0, block_size = bs,
       buffer = replicate MAX_NUMBER_PREFETCH (0, 0) \<rparr>"

text \<open>
  Modelled from the spec: \<^verbatim>\<open>svn_io_file_aligned_seek\<close> (libsvn_subr) is not part
  of the sources at hand. It positions the file at the requested offset and reports
  the start of the \<open>block_size\<close>-aligned block holding it ("clip reads to the end of the
  current block_size-aligned file block").
\<close>

definition aligned_block_start :: "int \<Rightarrow> int \<Rightarrow> int" where
  "aligned_block_start bs off = off - off mod bs"

text \<open>
  \<^verbatim>\<open>apr_file_read\<close> at position \<open>off\<close>: up to \<open>n\<close> bytes, fewer at the end
  of the file, none (and \<^verbatim>\<open>APR_EOF\<close>) beyond it.
\<close>

definition file_read :: "byte list \<Rightarrow> nat \<Rightarrow> nat \<Rightarrow> byte list" where
  "file_read file off n = take n (drop off file)"

text \<open>
  The trimming loop of \<^verbatim>\<open>packed_stream_read\<close>:
  \<^verbatim>\<open>while (read > 0 && buffer[read-1] >= 0x80) --read;\<close>
\<close>

fun trim_incomplete :: "byte list \<Rightarrow> nat \<Rightarrow> nat" where
  "trim_incomplete buf 0 = 0"
| "trim_incomplete buf (Suc n) =
     (if buf ! n \<ge> 0x80 then trim_incomplete buf n else Suc n)"

text \<open>
  The inner loop of the parser, \<^verbatim>\<open>while (buffer[i] >= 0x80)\<close>, on the bytes
  from position \<open>i\<close> on: it returns the value and shift accumulated, the new
  \<open>i\<close> and the bytes left, the first of which is the final byte of the number.
  A shift by 64 bits or more is undefined in C; \<open>push_bit\<close> yields 0 there, and
  the caller then fails with "number too large".
\<close>

fun read_continuation :: "byte list \<Rightarrow> nat \<Rightarrow> u64 \<Rightarrow> nat \<Rightarrow> u64 \<times> nat \<times> nat \<times> byte list" where
  "read_continuation [] i val shift = (val, shift, i, [])"
| "read_continuation (b # bs) i val shift =
     (if b \<ge> 0x80
      then read_continuation bs (i + 1) (val + push_bit shift (ucast b AND 0x7f)) (shift + 7)
      else (val, shift, i, b # bs))"

lemma read_continuation_length:
  "read_continuation bs i val shift = (val', shift', i', rest) \<Longrightarrow> length rest \<le> length bs"
  by (induction bs i val shift rule: read_continuation.induct) (auto split: if_splits)

text \<open>
  The parsing loop of \<^verbatim>\<open>packed_stream_read\<close>, \<^verbatim>\<open>for (i = 0; i < read;)\<close>, on the
  trimmed bytes from position \<open>i\<close> on; \<open>target\<close> holds the entries written so
  far. It returns the entries written, the final \<open>i\<close> and the error, if any. The
  entry of a number that is too large is written before the check fails. After
  trimming, the last byte is below \<open>0x80\<close>, so the inner loop never runs off the
  end of the bytes read; the model reports corruption should it happen.
\<close>

function expand_buffer :: "byte list \<Rightarrow> nat \<Rightarrow> (u64 \<times> nat) list \<Rightarrow> (u64 \<times> nat) list \<times> nat \<times> error option" where
  "expand_buffer [] i target = (target, i, None)"
| "expand_buffer (b # bs) i target =
     (if b < 0x80
      then expand_buffer bs (i + 1) (target @ [(ucast b, i + 1)])
      else (case read_continuation (b # bs) i 0 0 of
              (val, shift, i', []) \<Rightarrow> (target, i', Some Item_index_corruption)
            | (val, shift, i', b' # rest) \<Rightarrow>
                (let target' = target @ [(val + push_bit shift (ucast b'), i' + 1)]
                 in if shift > 64 then (target', i' + 1, Some Item_index_corruption)
                    else expand_buffer rest (i' + 1) target')))"
  by pat_completeness auto
termination
proof (relation "measure (\<lambda>(bs, i, target). length bs)", goal_cases)
  case 1
  show ?case by simp
next
  case 2
  show ?case by simp
next
  case 3
  then show ?case
    by (auto dest!: read_continuation_length [OF sym] split: if_splits)
qed

text \<open>
  The number of bytes \<^verbatim>\<open>packed_stream_read\<close> asks for: \<^verbatim>\<open>sizeof(buffer)\<close>,
  clipped to the end of the current block unless fewer than 10 bytes are left in it.
\<close>

definition prefetch_size :: "int \<Rightarrow> int \<Rightarrow> nat" where
  "prefetch_size bs off =
     (let block_start = aligned_block_start bs off;
          block_left = bs - (off - block_start)
      in if block_left \<ge> 10 \<and> block_left < int MAX_NUMBER_PREFETCH
         then nat block_left else MAX_NUMBER_PREFETCH)"

text \<open>
  \<^verbatim>\<open>packed_stream_read\<close>. It returns the error, if any, and the stream, which
  the C code has already changed where it fails (\<^verbatim>\<open>start_offset\<close>, and the
  entries of \<^verbatim>\<open>buffer\<close> written before a "number too large"). A negative
  position makes the seek fail.
\<close>

definition packed_stream_read :: "byte list \<Rightarrow> packed_number_stream \<Rightarrow> error option \<times> packed_number_stream" where
  "packed_stream_read file s =
     (let s1 = s\<lparr>start_offset := next_offset s\<rparr> in
      if next_offset s < 0 then (Some IO_error, s1)
      else
        let buf = file_read file (nat (next_offset s))
                    (prefetch_size (block_size s) (next_offset s));
            rd = trim_incomplete buf (length buf)
        in if rd = 0 then (Some Unexpected_EOF, s1)
           else (case expand_buffer (take rd buf) 0 [] of
                   (target, i, Some e) \<Rightarrow>
                     (Some e, s1\<lparr>buffer := target @ drop (length target) (buffer s1)\<rparr>)
                 | (target, i, None) \<Rightarrow>
                     (None, s1\<lparr>buffer := target @ drop (length target) (buffer s1),
                               used := length target,
                               next_offset := start_offset s1 + int i,
                               current := 0\<rparr>)))"

text \<open>\<^verbatim>\<open>packed_stream_get\<close>: the value read, or the error, and the stream after it.\<close>

definition packed_stream_get :: "byte list \<Rightarrow> packed_number_stream \<Rightarrow> (error + u64) \<times> packed_number_stream" where
  "packed_stream_get file s =
     (case (if current s = used s then packed_stream_read file s else (None, s)) of
        (Some e, s') \<Rightarrow> (Inl e, s')
      | (None, s') \<Rightarrow> (Inr (fst (buffer s' ! current s')), s'\<lparr>current := current s' + 1\<rparr>))"

text \<open>The scan of \<^verbatim>\<open>packed_stream_seek\<close> for the buffer entry holding the position.\<close>

function seek_scan :: "(u64 \<times> nat) list \<Rightarrow> nat \<Rightarrow> nat \<Rightarrow> int \<Rightarrow> nat" where
  "seek_scan buf n i rel =
     (if i < n then (if int (snd (buf ! i)) > rel then i else seek_scan buf n (i + 1) rel)
      else i)"
  by pat_completeness auto
termination
  by (relation "measure (\<lambda>(buf, n, i, rel). n - i)") auto

declare seek_scan.simps [simp del]

definition packed_stream_seek :: "packed_number_stream \<Rightarrow> int \<Rightarrow> packed_number_stream" where
  "packed_stream_seek s off =
     (if used s = 0 \<or> off < start_offset s \<or> off \<ge> next_offset s
      then s\<lparr>start_offset := off, next_offset := off, current := 0, used := 0\<rparr>
      else s\<lparr>current := seek_scan (buffer s) (used s) 0 (off - start_offset s)\<rparr>)"

definition packed_stream_offset :: "packed_number_stream \<Rightarrow> int" where
  "packed_stream_offset s =
     (if current s = 0 then start_offset s
      else int (snd (buffer s ! (current s - 1))) + start_offset s)"

fun positions :: "u64 list \<Rightarrow> nat \<Rightarrow> (u64 \<times> nat) list" where
  "positions [] i = []"
| "positions (v # vs) i =
     (v, i + length (encode_uint v)) # positions vs (i + length (encode_uint v))"

definition encode_all :: "u64 list \<Rightarrow> byte list" where
  "encode_all vs = concat (map encode_uint vs)"

definition cont_count :: "u64 \<Rightarrow> nat" where
  "cont_count v = length (encode_uint v) - 1"

definition bpos :: "u64 list \<Rightarrow> nat \<Rightarrow> nat" where
  "bpos vs k = length (encode_all (take k vs))"

fun fit :: "u64 list \<Rightarrow> nat \<Rightarrow> nat" where
  "fit [] n = 0"
| "fit (v # vs) n =
     (if length (encode_uint v) \<le> n then Suc (fit vs (n - length (encode_uint v))) else 0)"

definition buffered :: "u64 list \<Rightarrow> packed_number_stream \<Rightarrow> nat \<Rightarrow> bool" where
  "buffered vs s j \<longleftrightarrow>
     j + used s \<le> length vs \<and> current s \<le> used s \<and> used s \<le> length (buffer s) \<and>
     start_offset s = int (bpos vs j) \<and> next_offset s = int (bpos vs (j + used s)) \<and>
     (\<forall>i<used s. buffer s ! i = (vs ! (j + i), bpos vs (Suc (j + i)) - bpos vs j))"

definition stream_at :: "u64 list \<Rightarrow> packed_number_stream \<Rightarrow> nat \<Rightarrow> bool" where
  "stream_at vs s k \<longleftrightarrow> (\<exists>j. buffered vs s j \<and> k = j + current s)"

inductive_set streams :: "byte list \<Rightarrow> packed_number_stream set" for f :: "byte list" where
  opened: "packed_stream_open bs \<in> streams f"
| seek: "s \<in> streams f \<Longrightarrow> packed_stream_seek s off \<in> streams f"
| get: "s \<in> streams f \<Longrightarrow> snd (packed_stream_get f s) \<in> streams f"

definition stream_inv :: "packed_number_stream \<Rightarrow> bool" where
  "stream_inv s \<longleftrightarrow>
     used s = 0 \<or> start_offset s = next_offset s \<or>
     next_offset s = start_offset s + int (snd (buffer s ! (used s - 1)))"

section \<open>Log-to-phys index: proto index and builder\<close>

text \<open>
  \<^verbatim>\<open>l2p_proto_entry_t\<close>: \<open>pe_offset\<close> is the physical offset plus one (0 for "new
  revision" entries), \<open>pe_item_index\<close> the item index. The proto index file is a
  sequence of such fixed-size records; the model is the list of the complete records
  in the file (a trailing partial record makes \<^verbatim>\<open>SVN_ERR_ASSERT\<close> fail in the
  readers and is not modelled).
\<close>

record l2p_proto_entry =
  pe_offset :: u64
  pe_item_index :: u64

text \<open>
  \<^verbatim>\<open>svn_fs_fs__l2p_proto_index_add_revision\<close> and
  \<^verbatim>\<open>svn_fs_fs__l2p_proto_index_add_entry\<close> append one record to the proto index.
  The offset is an \<^verbatim>\<open>apr_off_t\<close>; \<open>UINT_MAX / 2\<close> is \<open>2147483647\<close>.
\<close>

definition l2p_proto_index_add_revision :: "l2p_proto_entry list \<Rightarrow> error + l2p_proto_entry list" where
  "l2p_proto_index_add_revision proto_index =
     Inr (proto_index @ [\<lparr>pe_offset = 0, pe_item_index = 0\<rparr>])"

definition l2p_proto_index_add_entry ::
    "l2p_proto_entry list \<Rightarrow> int \<Rightarrow> u64 \<Rightarrow> error + l2p_proto_entry list" where
  "l2p_proto_index_add_entry proto_index off item_index =
     (if \<not> off \<ge> - 1 then Inl Assertion_failed
      else if \<not> unat item_index < 2147483647 then Inl Assertion_failed
      else Inr (proto_index @ [\<lparr>pe_offset = word_of_int off + 1, pe_item_index = item_index\<rparr>]))"

text \<open>
  \<^verbatim>\<open>encode_l2p_page\<close>: the entries from \<open>start\<close> up to \<open>end\<close>, each as the
  signed difference to its predecessor (0 before the first), appended to the spill
  buffer. The loop \<^verbatim>\<open>for (i = start; i < end; ++i)\<close> is run on \<open>i\<close>.
\<close>

function encode_l2p_page_loop :: "u64 list \<Rightarrow> nat \<Rightarrow> nat \<Rightarrow> u64 \<Rightarrow> byte list \<Rightarrow> byte list" where
  "encode_l2p_page_loop vals i end_idx last_value buf =
     (if i < end_idx
      then encode_l2p_page_loop vals (i + 1) end_idx (vals ! i)
             (buf @ encode_int (vals ! i - last_value))
      else buf)"
  by pat_completeness auto
termination
  by (relation "measure (\<lambda>(vals, i, end_idx, last_value, buf). end_idx - i)") auto

declare encode_l2p_page_loop.simps [simp del]

definition encode_l2p_page :: "u64 list \<Rightarrow> nat \<Rightarrow> nat \<Rightarrow> byte list \<Rightarrow> byte list" where
  "encode_l2p_page vals start end_idx buf = encode_l2p_page_loop vals start end_idx 0 buf"

text \<open>
  The data \<^verbatim>\<open>svn_fs_fs__l2p_index_create\<close> collects: the item offsets of the
  current revision (\<^verbatim>\<open>entries\<close>), the number of pages of each revision
  (\<^verbatim>\<open>page_counts\<close>), the size on disk and the number of entries of each page
  (\<^verbatim>\<open>page_sizes\<close>, \<^verbatim>\<open>entry_counts\<close>), the encoded pages (the spill buffer,
  \<open>spill\<close>) and \<^verbatim>\<open>last_page_count\<close>.
\<close>

record l2p_builder =
  entries :: "u64 list"
  page_counts :: "nat list"
  page_sizes :: "nat list"
  entry_counts :: "nat list"
  spill :: "byte list"
  last_page_count :: nat

definition l2p_builder_init :: l2p_builder where
  "l2p_builder_init =
     \<lparr> entries = [], page_counts = [], page_sizes = [], entry_counts = [], spill = [],
       last_page_count = 0 \<rparr>"

text \<open>
  "dump entries, grouped into pages":
  \<^verbatim>\<open>for (i = 0; i < entries->nelts; i += entry_count)\<close> with
  \<^verbatim>\<open>entry_count = MIN(entries->nelts - i, ffd->l2p_page_size)\<close>. With a page size of
  0 the C loop never ends; not returning is \<open>None\<close>.
\<close>

partial_function (option) dump_pages :: "nat \<Rightarrow> nat \<Rightarrow> l2p_builder \<Rightarrow> l2p_builder option" where
  "dump_pages l2p_page_size i b =
     (if i < length (entries b)
      then dump_pages l2p_page_size (i + min (length (entries b) - i) l2p_page_size)
             (b\<lparr> spill := encode_l2p_page (entries b) i
                              (i + min (length (entries b) - i) l2p_page_size) (spill b),
                 entry_counts := entry_counts b @ [min (length (entries b) - i) l2p_page_size],
                 page_sizes := page_sizes b @
                   [length (encode_l2p_page (entries b) i
                              (i + min (length (entries b) - i) l2p_page_size) (spill b))
                    - length (spill b)] \<rparr>)
      else Some b)"

declare dump_pages.simps [code]

text \<open>The "handle new revision" branch: dump the pages, clear \<^verbatim>\<open>entries\<close>, store the page count.\<close>

definition new_revision :: "nat \<Rightarrow> l2p_builder \<Rightarrow> l2p_builder option" where
  "new_revision l2p_page_size b =
     (case dump_pages l2p_page_size 0 b of
        None \<Rightarrow> None
      | Some b' \<Rightarrow>
          Some (b'\<lparr> entries := [],
                    page_counts := page_counts b' @ [length (page_sizes b') - last_page_count b'],
                    last_page_count := length (page_sizes b') \<rparr>))"

text \<open>
  "store the mapping in our array": \<^verbatim>\<open>int idx = (apr_size_t)proto_entry.item_index\<close>,
  the array is padded with zeros up to \<open>idx\<close>, then \<^verbatim>\<open>entries[idx]\<close> is set. The
  conversion to \<^verbatim>\<open>int\<close> keeps the low 32 bits; a negative \<open>idx\<close> makes the C code
  write in front of the array, which the model reports as \<open>Out_of_bounds\<close>.
\<close>

definition store_mapping :: "l2p_proto_entry \<Rightarrow> l2p_builder \<Rightarrow> error + l2p_builder" where
  "store_mapping e b =
     (let idx = sint (ucast (pe_item_index e) :: 32 word) in
      if idx < 0 then Inl Out_of_bounds
      else Inr (b\<lparr> entries :=
             (entries b @ replicate (nat idx + 1 - length (entries b)) 0)[nat idx := pe_offset e] \<rparr>))"

text \<open>
  The main loop, \<^verbatim>\<open>for (entry = 0; !eof; ++entry)\<close>, over the records left in the
  proto index; \<open>entry\<close> counts the records read so far. At the end of the file the
  last revision is dumped. \<open>None\<close>: the builder does not return.
\<close>

fun process_entries :: "nat \<Rightarrow> l2p_proto_entry list \<Rightarrow> nat \<Rightarrow> l2p_builder \<Rightarrow> (error + l2p_builder) option" where
  "process_entries l2p_page_size [] entry b =
     (case new_revision l2p_page_size b of None \<Rightarrow> None | Some b' \<Rightarrow> Some (Inr b'))"
| "process_entries l2p_page_size (e # es) entry b =
     (if entry > 0 \<and> pe_offset e = 0
      then (case new_revision l2p_page_size b of
              None \<Rightarrow> None
            | Some b' \<Rightarrow> process_entries l2p_page_size es (entry + 1) b')
      else (case store_mapping e b of
              Inl err \<Rightarrow> Some (Inl err)
            | Inr b' \<Rightarrow> process_entries l2p_page_size es (entry + 1) b'))"

text \<open>
  The index file written at the end: the header values, the revision table, the page
  table and the page contents.
\<close>

definition l2p_index_bytes :: "int \<Rightarrow> nat \<Rightarrow> l2p_builder \<Rightarrow> byte list" where
  "l2p_index_bytes revision l2p_page_size b =
     encode_uint (word_of_int revision) @ encode_uint (of_nat l2p_page_size)
     @ encode_uint (of_nat (length (page_counts b)))
     @ encode_uint (of_nat (length (page_sizes b)))
     @ concat (map (\<lambda>c. encode_uint (of_nat c)) (page_counts b))
     @ concat (map (\<lambda>i. encode_uint (of_nat (page_sizes b ! i))
                         @ encode_uint (of_nat (entry_counts b ! i)))
                   [0 ..< length (page_sizes b)])
     @ spill b"

text \<open>
  \<^verbatim>\<open>svn_fs_fs__l2p_index_create\<close>: the content of the index file built from the
  proto index, for an index starting at \<open>revision\<close> with page size
  \<^verbatim>\<open>ffd->l2p_page_size\<close>. File system errors are not modelled.
\<close>

definition l2p_index_create :: "nat \<Rightarrow> l2p_proto_entry list \<Rightarrow> int \<Rightarrow> (error + byte list) option" where
  "l2p_index_create l2p_page_size proto_index revision =
     (case process_entries l2p_page_size proto_index 0 l2p_builder_init of
        None \<Rightarrow> None
      | Some (Inl err) \<Rightarrow> Some (Inl err)
      | Some (Inr b) \<Rightarrow> Some (Inr (l2p_index_bytes revision l2p_page_size b)))"

section \<open>File system context and caches\<close>

text \<open>
  \<^verbatim>\<open>l2p_page_table_entry_t\<close>, \<^verbatim>\<open>l2p_header_t\<close> and \<^verbatim>\<open>l2p_page_t\<close>. Revisions
  (\<^verbatim>\<open>svn_revnum_t\<close>) and positions in the index file are integers, counts and sizes
  naturals (the casts that narrow them are written out where the values are read),
  item offsets are 64-bit words. \<open>pte_offset\<close>, \<open>pte_entry_count\<close> and \<open>pte_size\<close>
  are the fields \<^verbatim>\<open>offset\<close>, \<^verbatim>\<open>entry_count\<close> and \<^verbatim>\<open>size\<close> of a page table entry.
\<close>

record l2p_page_table_entry =
  pte_offset :: int
  pte_entry_count :: nat
  pte_size :: nat

record l2p_header =
  first_revision :: int
  revision_count :: nat
  page_size :: nat
  page_table_index :: "nat list"
  page_table :: "l2p_page_table_entry list"

record l2p_page =
  entry_count :: nat
  offsets :: "u64 list"

text \<open>
  \<^verbatim>\<open>p2l_header_t\<close> and \<^verbatim>\<open>svn_fs_fs__p2l_entry_t\<close> (with the fields of its
  \<^verbatim>\<open>item\<close> inlined), declared here because the caches hold them.
\<close>

record p2l_header =
  p2l_first_revision :: int
  p2l_page_size :: u64
  p2l_page_count :: nat
  p2l_file_size :: u64
  p2l_offsets :: "int list"

record p2l_entry =
  p2l_offset :: u64
  p2l_size :: u64
  p2l_type :: nat
  p2l_revision :: int
  p2l_number :: u64
  fnv1_checksum :: "32 word"

text \<open>
  The part of \<^verbatim>\<open>svn_fs_t\<close> and \<^verbatim>\<open>fs_fs_data_t\<close> the index code uses. The
  configuration values are \<^verbatim>\<open>max_files_per_dir\<close>, \<^verbatim>\<open>block_size\<close>,
  \<^verbatim>\<open>l2p_page_size\<close> and \<^verbatim>\<open>p2l_page_size\<close>. The functions
  \<^verbatim>\<open>svn_fs_fs__is_packed_rev\<close>, \<^verbatim>\<open>svn_fs_fs__use_log_addressing\<close> and
  \<^verbatim>\<open>svn_fs_fs__get_packed_offset\<close> and the files behind
  \<^verbatim>\<open>svn_fs_fs__path_l2p_index\<close>, \<^verbatim>\<open>svn_fs_fs__path_p2l_index\<close> and
  \<^verbatim>\<open>svn_fs_fs__path_l2p_proto_index\<close> belong to other parts of the library; they
  are parameters here: \<open>l2p_index_file fs rev\<close> is the content of the file that
  \<^verbatim>\<open>svn_fs_fs__path_l2p_index(fs, rev)\<close> names, if it exists.

  Modelled from the spec: the caches (\<^verbatim>\<open>svn_cache__t\<close>) are not part of the
  sources at hand. A cache maps keys to values; \<^verbatim>\<open>svn_cache__set\<close> stores a value,
  \<^verbatim>\<open>svn_cache__get\<close> and \<^verbatim>\<open>svn_cache__get_partial\<close> find it (the latter applies
  the getter to it), \<^verbatim>\<open>svn_cache__has_key\<close> tests for it. A header cache key is
  \<^verbatim>\<open>pair_cache_key_t\<close> (revision, second), a page cache key is
  \<^verbatim>\<open>svn_fs_fs__page_cache_key_t\<close> (revision, is_packed, page).
\<close>

text \<open>\<^verbatim>\<open>svn_fs_fs__id_part_t\<close>, which identifies a transaction.\<close>

record id_part =
  id_revision :: int
  id_number :: u64

record fs =
  max_files_per_dir :: int
  ffd_block_size :: int
  l2p_page_size :: nat
  p2l_page_size :: u64
  is_packed_rev :: "int \<Rightarrow> bool"
  use_log_addressing :: "int \<Rightarrow> bool"
  get_packed_offset :: "int \<Rightarrow> int"
  l2p_index_file :: "int \<Rightarrow> byte list option"
  p2l_index_file :: "int \<Rightarrow> byte list option"
  l2p_proto_index_file :: "id_part \<Rightarrow> l2p_proto_entry list option"
  l2p_header_cache :: "int \<times> bool \<Rightarrow> l2p_header option"
  l2p_page_cache :: "nat \<times> bool \<times> nat \<Rightarrow> l2p_page option"
  p2l_header_cache :: "int \<times> bool \<Rightarrow> p2l_header option"
  p2l_page_cache :: "nat \<times> bool \<times> nat \<Rightarrow> p2l_entry list option"

text \<open>\<^verbatim>\<open>base_revision\<close>; C's \<open>%\<close> and \<open>mod\<close> agree on revisions, which are not negative.\<close>

definition base_revision :: "fs \<Rightarrow> int \<Rightarrow> int" where
  "base_revision fs revision =
     (if is_packed_rev fs revision then revision - (revision mod max_files_per_dir fs)
      else revision)"

text \<open>
  An open stream together with the bytes of its file. \<open>stream_get\<close> is
  \<^verbatim>\<open>SVN_ERR(packed_stream_get(&value, stream))\<close>: an error ends the caller.
\<close>

type_synonym stream_handle = "byte list \<times> packed_number_stream"

definition stream_get :: "stream_handle \<Rightarrow> error + (u64 \<times> stream_handle)" where
  "stream_get h =
     (case packed_stream_get (fst h) (snd h) of
        (Inl e, s') \<Rightarrow> Inl e
      | (Inr v, s') \<Rightarrow> Inr (v, (fst h, s')))"

definition stream_seek :: "stream_handle \<Rightarrow> int \<Rightarrow> stream_handle" where
  "stream_seek h off = (fst h, packed_stream_seek (snd h) off)"

definition stream_offset :: "stream_handle \<Rightarrow> int" where
  "stream_offset h = packed_stream_offset (snd h)"

text \<open>Reading an array element, with the bounds check C does not make.\<close>

definition array_read :: "'a list \<Rightarrow> nat \<Rightarrow> error + 'a" where
  "array_read xs i = (if i < length xs then Inr (xs ! i) else Inl Out_of_bounds)"

section \<open>Log-to-phys index: reader\<close>

definition auto_open_l2p_index :: "fs \<Rightarrow> stream_handle option \<Rightarrow> int \<Rightarrow> error + stream_handle" where
  "auto_open_l2p_index fs stream revision =
     (case stream of
        Some h \<Rightarrow> Inr h
      | None \<Rightarrow>
          (case l2p_index_file fs revision of
             None \<Rightarrow> Inl IO_error
           | Some f \<Rightarrow> Inr (f, packed_stream_open (ffd_block_size fs))))"

text \<open>
  The loops of \<^verbatim>\<open>get_l2p_header_body\<close>. The first reads the number of pages of
  each revision and returns the running sums \<^verbatim>\<open>page_table_index[1..]\<close>
  (\<^verbatim>\<open>apr_size_t\<close> arithmetic). The second reads size and entry count of each page,
  cast to \<^verbatim>\<open>apr_uint32_t\<close>. The third turns the sizes into offsets.
\<close>

fun read_page_table_index :: "nat \<Rightarrow> nat \<Rightarrow> stream_handle \<Rightarrow> error + (nat list \<times> stream_handle)" where
  "read_page_table_index 0 idx h = Inr ([], h)"
| "read_page_table_index (Suc n) idx h =
     (case stream_get h of
        Inl e \<Rightarrow> Inl e
      | Inr (v, h') \<Rightarrow>
          (case read_page_table_index n ((idx + unat v) mod 2 ^ 64) h' of
             Inl e \<Rightarrow> Inl e
           | Inr (rest, h'') \<Rightarrow> Inr ((idx + unat v) mod 2 ^ 64 # rest, h'')))"

fun read_page_table :: "nat \<Rightarrow> stream_handle \<Rightarrow> error + (l2p_page_table_entry list \<times> stream_handle)" where
  "read_page_table 0 h = Inr ([], h)"
| "read_page_table (Suc n) h =
     (case stream_get h of
        Inl e \<Rightarrow> Inl e
      | Inr (sz, h1) \<Rightarrow>
          (case stream_get h1 of
             Inl e \<Rightarrow> Inl e
           | Inr (cnt, h2) \<Rightarrow>
               (case read_page_table n h2 of
                  Inl e \<Rightarrow> Inl e
                | Inr (rest, h3) \<Rightarrow>
                    Inr (\<lparr> pte_offset = 0, pte_entry_count = unat (ucast cnt :: 32 word),
                           pte_size = unat (ucast sz :: 32 word) \<rparr> # rest, h3))))"

fun correct_offsets :: "int \<Rightarrow> l2p_page_table_entry list \<Rightarrow> l2p_page_table_entry list" where
  "correct_offsets off [] = []"
| "correct_offsets off (e # es) =
     e\<lparr>pte_offset := off\<rparr> # correct_offsets (off + int (pte_size e)) es"

text \<open>
  \<^verbatim>\<open>get_l2p_header_body\<close>: read the header from the index file and put it into the
  header cache. \<^verbatim>\<open>revision_count\<close> is read through a cast to \<^verbatim>\<open>int\<close>.
\<close>

definition get_l2p_header_body ::
    "fs \<Rightarrow> stream_handle option \<Rightarrow> int \<Rightarrow> error + (l2p_header \<times> stream_handle \<times> fs)" where
  "get_l2p_header_body fs stream revision =
     (case auto_open_l2p_index fs stream revision of
        Inl e \<Rightarrow> Inl e
      | Inr h0 \<Rightarrow>
     (case stream_get (stream_seek h0 0) of
        Inl e \<Rightarrow> Inl e
      | Inr (v1, h1) \<Rightarrow>
     (case stream_get h1 of
        Inl e \<Rightarrow> Inl e
      | Inr (v2, h2) \<Rightarrow>
     (case stream_get h2 of
        Inl e \<Rightarrow> Inl e
      | Inr (v3, h3) \<Rightarrow>
     (case stream_get h3 of
        Inl e \<Rightarrow> Inl e
      | Inr (v4, h4) \<Rightarrow>
     (let rev_count = unat (scast (ucast v3 :: 32 word) :: u64) in
      case read_page_table_index rev_count 0 h4 of
        Inl e \<Rightarrow> Inl e
      | Inr (idx, h5) \<Rightarrow>
     (case read_page_table (unat v4) h5 of
        Inl e \<Rightarrow> Inl e
      | Inr (tbl, h6) \<Rightarrow>
     (let result = \<lparr> first_revision = sint v1, revision_count = rev_count,
                      page_size = unat v2, page_table_index = 0 # idx,
                      page_table = correct_offsets (stream_offset h6) tbl \<rparr>;
          key = (base_revision fs revision, is_packed_rev fs revision)
      in Inr (result, h6, fs\<lparr>l2p_header_cache := (l2p_header_cache fs)(key \<mapsto> result)\<rparr>)))))))))"

text \<open>
  The output fields of \<^verbatim>\<open>l2p_page_info_baton_t\<close>: \<open>pi_entry\<close>, \<open>pi_page_no\<close>,
  \<open>pi_page_offset\<close> and \<open>pi_first_revision\<close> stand for \<^verbatim>\<open>entry\<close>, \<^verbatim>\<open>page_no\<close>,
  \<^verbatim>\<open>page_offset\<close> and \<^verbatim>\<open>first_revision\<close>.
\<close>

record l2p_page_info =
  pi_entry :: l2p_page_table_entry
  pi_page_no :: nat
  pi_page_offset :: nat
  pi_first_revision :: int

text \<open>
  \<^verbatim>\<open>l2p_page_info_copy\<close>. \<^verbatim>\<open>rel_revision\<close> is an \<^verbatim>\<open>apr_size_t\<close>, so a revision
  below the first one wraps to a large value. \<^verbatim>\<open>page_offset\<close> and \<^verbatim>\<open>page_no\<close> go
  through \<^verbatim>\<open>apr_uint32_t\<close>. \<^verbatim>\<open>last_entry - first_entry > baton->page_no\<close>
  compares in \<^verbatim>\<open>apr_size_t\<close>. The page table is read with bounds checks the C
  code does not have, and the division by a page size of 0 is reported.
\<close>

definition l2p_page_info_copy :: "l2p_header \<Rightarrow> int \<Rightarrow> u64 \<Rightarrow> error + l2p_page_info" where
  "l2p_page_info_copy header revision item_index =
     (let rel_revision = nat ((revision - first_revision header) mod 2 ^ 64) in
      if rel_revision \<ge> revision_count header then Inl Item_index_revision
      else if unat item_index < page_size header
      then (case array_read (page_table header) (page_table_index header ! rel_revision) of
              Inl e \<Rightarrow> Inl e
            | Inr entry \<Rightarrow>
                Inr \<lparr> pi_entry = entry, pi_page_no = 0,
                      pi_page_offset = unat item_index mod 2 ^ 32,
                      pi_first_revision = first_revision header \<rparr>)
      else if page_size header = 0 then Inl Division_by_zero
      else
        (let page_offset = (unat item_index mod page_size header) mod 2 ^ 32;
             page_no = (unat item_index div page_size header) mod 2 ^ 32;
             first_entry = page_table_index header ! rel_revision;
             last_entry = page_table_index header ! (rel_revision + 1)
         in if nat ((int last_entry - int first_entry) mod 2 ^ 64) > page_no
            then (case array_read (page_table header) (first_entry + page_no) of
                    Inl e \<Rightarrow> Inl e
                  | Inr entry \<Rightarrow>
                      Inr \<lparr> pi_entry = entry, pi_page_no = page_no,
                            pi_page_offset = page_offset,
                            pi_first_revision = first_revision header \<rparr>)
            else if last_entry = 0 then Inl Out_of_bounds
            else (case array_read (page_table header) (last_entry - 1) of
                    Inl e \<Rightarrow> Inl e
                  | Inr entry \<Rightarrow>
                      Inr \<lparr> pi_entry = entry, pi_page_no = page_no,
                            pi_page_offset = (page_size header + 1) mod 2 ^ 32,
                            pi_first_revision = first_revision header \<rparr>)))"

text \<open>
  \<^verbatim>\<open>get_l2p_page_info\<close>: from the cached header (\<^verbatim>\<open>l2p_page_info_access_func\<close>)
  or from the index file.
\<close>

definition get_l2p_page_info ::
    "fs \<Rightarrow> stream_handle option \<Rightarrow> int \<Rightarrow> u64 \<Rightarrow> error + (l2p_page_info \<times> stream_handle option \<times> fs)" where
  "get_l2p_page_info fs stream revision item_index =
     (case l2p_header_cache fs (base_revision fs revision, is_packed_rev fs revision) of
        Some header \<Rightarrow>
          (case l2p_page_info_copy header revision item_index of
             Inl e \<Rightarrow> Inl e
           | Inr info \<Rightarrow> Inr (info, stream, fs))
      | None \<Rightarrow>
          (case get_l2p_header_body fs stream revision of
             Inl e \<Rightarrow> Inl e
           | Inr (result, h, fs') \<Rightarrow>
               (case l2p_page_info_copy result revision item_index of
                  Inl e \<Rightarrow> Inl e
                | Inr info \<Rightarrow> Inr (info, Some h, fs'))))"

text \<open>
  \<^verbatim>\<open>get_l2p_page_table\<close> with \<^verbatim>\<open>l2p_page_table_access_func\<close>: the page table of
  the revision from the cached header, empty if the header is not cached or does not
  cover the revision.
\<close>

definition get_l2p_page_table :: "fs \<Rightarrow> int \<Rightarrow> l2p_page_table_entry list" where
  "get_l2p_page_table fs revision =
     (case l2p_header_cache fs (base_revision fs revision, is_packed_rev fs revision) of
        None \<Rightarrow> []
      | Some header \<Rightarrow>
          (let rel_revision = nat ((revision - first_revision header) mod 2 ^ 64) in
           if rel_revision < revision_count header
           then take (page_table_index header ! (rel_revision + 1)
                        - page_table_index header ! rel_revision)
                  (drop (page_table_index header ! rel_revision) (page_table header))
           else []))"

text \<open>
  The loop of \<^verbatim>\<open>get_l2p_page\<close>: \<open>n\<close> more values, each the signed difference to
  the previous one; an entry is the running sum minus one.
\<close>

fun read_l2p_offsets :: "nat \<Rightarrow> u64 \<Rightarrow> stream_handle \<Rightarrow> error + (u64 list \<times> stream_handle)" where
  "read_l2p_offsets 0 last_value h = Inr ([], h)"
| "read_l2p_offsets (Suc n) last_value h =
     (case stream_get h of
        Inl e \<Rightarrow> Inl e
      | Inr (v, h') \<Rightarrow>
          (case read_l2p_offsets n (last_value + decode_int v) h' of
             Inl e \<Rightarrow> Inl e
           | Inr (rest, h'') \<Rightarrow> Inr ((last_value + decode_int v - 1) # rest, h'')))"

definition get_l2p_page ::
    "fs \<Rightarrow> stream_handle option \<Rightarrow> int \<Rightarrow> l2p_page_table_entry \<Rightarrow> error + (l2p_page \<times> stream_handle)" where
  "get_l2p_page fs stream start_revision table_entry =
     (case auto_open_l2p_index fs stream start_revision of
        Inl e \<Rightarrow> Inl e
      | Inr h \<Rightarrow>
          (case read_l2p_offsets (pte_entry_count table_entry) 0
                  (stream_seek h (pte_offset table_entry)) of
             Inl e \<Rightarrow> Inl e
           | Inr (offs, h') \<Rightarrow>
               Inr (\<lparr> entry_count = pte_entry_count table_entry, offsets = offs \<rparr>, h')))"

text \<open>
  The loop of \<^verbatim>\<open>prefetch_l2p_pages\<close> from page \<open>i\<close> on. It returns \<^verbatim>\<open>*end\<close>,
  which is \<^verbatim>\<open>FALSE\<close> as long as the loop runs. The cache key holds the revision as
  \<^verbatim>\<open>apr_uint32_t\<close>.
\<close>

function prefetch_l2p_pages_loop ::
    "stream_handle \<Rightarrow> int \<Rightarrow> int \<Rightarrow> l2p_page_table_entry list \<Rightarrow> int \<Rightarrow> int \<Rightarrow> int \<Rightarrow> nat \<Rightarrow> fs
     \<Rightarrow> error + (bool \<times> stream_handle \<times> fs)" where
  "prefetch_l2p_pages_loop h first_rev revision pages exlcuded_page_no min_offset max_offset i fs =
     (if i < length pages
      then
        (let entry = pages ! i;
             key = (nat (revision mod 2 ^ 32), is_packed_rev fs revision, i)
         in if int i = exlcuded_page_no
            then prefetch_l2p_pages_loop h first_rev revision pages exlcuded_page_no
                   min_offset max_offset (i + 1) fs
            else if pte_offset entry < min_offset
                    \<or> pte_offset entry + int (pte_size entry) > max_offset
            then Inr (True, h, fs)
            else if l2p_page_cache fs key \<noteq> None
            then Inr (True, h, fs)
            else (case get_l2p_page fs (Some h) first_rev entry of
                    Inl e \<Rightarrow> Inl e
                  | Inr (page, h') \<Rightarrow>
                      prefetch_l2p_pages_loop h' first_rev revision pages exlcuded_page_no
                        min_offset max_offset (i + 1)
                        (fs\<lparr>l2p_page_cache := (l2p_page_cache fs)(key \<mapsto> page)\<rparr>)))
      else Inr (False, h, fs))"
  by pat_completeness auto
termination
  by (relation "measure (\<lambda>(h, first_rev, revision, pages, ex, mn, mx, i, fs). length pages - i)")
     auto

declare prefetch_l2p_pages_loop.simps [simp del]

definition prefetch_l2p_pages ::
    "fs \<Rightarrow> stream_handle \<Rightarrow> int \<Rightarrow> int \<Rightarrow> int \<Rightarrow> int \<Rightarrow> int
     \<Rightarrow> error + (bool \<times> stream_handle \<times> fs)" where
  "prefetch_l2p_pages fs h first_rev revision exlcuded_page_no min_offset max_offset =
     (let pages = get_l2p_page_table fs revision in
      if length pages = 0 then Inr (True, h, fs)
      else prefetch_l2p_pages_loop h first_rev revision pages exlcuded_page_no
             min_offset max_offset 0 fs)"

text \<open>\<^verbatim>\<open>l2p_page_get_entry\<close>.\<close>

definition l2p_page_get_entry :: "l2p_page \<Rightarrow> nat \<Rightarrow> error + u64" where
  "l2p_page_get_entry page page_offset =
     (if entry_count page \<le> page_offset then Inl Item_index_overflow
      else array_read (offsets page) page_offset)"

text \<open>
  The two prefetch loops of \<^verbatim>\<open>l2p_index_lookup\<close>: forward from \<open>revision\<close> up to
  \<^verbatim>\<open>last_revision\<close>, backward from \<open>revision - 1\<close> down to the first revision.
\<close>

function prefetch_forward ::
    "stream_handle \<Rightarrow> int \<Rightarrow> int \<Rightarrow> int \<Rightarrow> int \<Rightarrow> int \<Rightarrow> int \<Rightarrow> int \<Rightarrow> fs
     \<Rightarrow> error + (stream_handle \<times> fs)" where
  "prefetch_forward h first_rev revision page_no min_offset max_offset last_revision prefetch_revision fs =
     (if prefetch_revision < last_revision
      then (case prefetch_l2p_pages fs h first_rev prefetch_revision
                   (if prefetch_revision = revision then page_no else - 1)
                   min_offset max_offset of
              Inl e \<Rightarrow> Inl e
            | Inr (end_flag, h', fs') \<Rightarrow>
                if end_flag then Inr (h', fs')
                else prefetch_forward h' first_rev revision page_no min_offset max_offset
                       last_revision (prefetch_revision + 1) fs')
      else Inr (h, fs))"
  by pat_completeness auto
termination
  by (relation "measure (\<lambda>(h, first_rev, revision, page_no, mn, mx, last_revision, prefetch_revision, fs).
        nat (last_revision - prefetch_revision))") auto

declare prefetch_forward.simps [simp del]

function prefetch_backward ::
    "stream_handle \<Rightarrow> int \<Rightarrow> int \<Rightarrow> int \<Rightarrow> int \<Rightarrow> fs \<Rightarrow> error + (stream_handle \<times> fs)" where
  "prefetch_backward h first_rev min_offset max_offset prefetch_revision fs =
     (if prefetch_revision \<ge> first_rev
      then (case prefetch_l2p_pages fs h first_rev prefetch_revision (- 1)
                   min_offset max_offset of
              Inl e \<Rightarrow> Inl e
            | Inr (end_flag, h', fs') \<Rightarrow>
                if end_flag then Inr (h', fs')
                else prefetch_backward h' first_rev min_offset max_offset
                       (prefetch_revision - 1) fs')
      else Inr (h, fs))"
  by pat_completeness auto
termination
  by (relation "measure (\<lambda>(h, first_rev, mn, mx, prefetch_revision, fs).
        nat (prefetch_revision - first_rev + 1))") auto

declare prefetch_backward.simps [simp del]

text \<open>\<^verbatim>\<open>APR_ALIGN\<close>: round up to a multiple of the boundary, a power of two.\<close>

definition APR_ALIGN :: "int \<Rightarrow> int \<Rightarrow> int" where
  "APR_ALIGN sz boundary = ((sz + (boundary - 1)) div boundary) * boundary"

text \<open>
  \<^verbatim>\<open>l2p_index_lookup\<close>: the offset found for (revision, item index), as the 64 bits
  of the \<^verbatim>\<open>apr_off_t\<close> returned (\<open>-1\<close> for an unused item), and the file system with
  its caches updated.
\<close>

definition l2p_index_lookup :: "fs \<Rightarrow> int \<Rightarrow> u64 \<Rightarrow> error + (u64 \<times> fs)" where
  "l2p_index_lookup fs revision item_index =
     (case get_l2p_page_info fs None revision item_index of
        Inl e \<Rightarrow> Inl e
      | Inr (info, stream, fs1) \<Rightarrow>
     (let key = (nat (revision mod 2 ^ 32), is_packed_rev fs1 revision, pi_page_no info) in
      case l2p_page_cache fs1 key of
        Some page \<Rightarrow>
          (case l2p_page_get_entry page (pi_page_offset info) of
             Inl e \<Rightarrow> Inl e
           | Inr off \<Rightarrow> Inr (off, fs1))
      | None \<Rightarrow>
          (let last_revision = pi_first_revision info
                 + (if is_packed_rev fs1 revision then max_files_per_dir fs1 else 1);
               max_offset = APR_ALIGN (pte_offset (pi_entry info) + int (pte_size (pi_entry info)))
                              0x10000;
               min_offset = max_offset - 0x10000
           in case get_l2p_page fs1 stream (pi_first_revision info) (pi_entry info) of
                Inl e \<Rightarrow> Inl e
              | Inr (page, h) \<Rightarrow>
           (let fs2 = fs1\<lparr>l2p_page_cache := (l2p_page_cache fs1)(key \<mapsto> page)\<rparr> in
            case l2p_page_get_entry page (pi_page_offset info) of
              Inl e \<Rightarrow> Inl e
            | Inr off \<Rightarrow>
           (case prefetch_forward h (pi_first_revision info) revision (int (pi_page_no info))
                   min_offset max_offset last_revision revision fs2 of
              Inl e \<Rightarrow> Inl e
            | Inr (h', fs3) \<Rightarrow>
           (case prefetch_backward h' (pi_first_revision info) min_offset max_offset
                   (revision - 1) fs3 of
              Inl e \<Rightarrow> Inl e
            | Inr (h'', fs4) \<Rightarrow> Inr (off, fs4)))))))"

text \<open>
  \<^verbatim>\<open>l2p_proto_index_lookup\<close>: scan the proto index of the transaction for the first
  record with the item index; the result starts as \<open>-1\<close>.
\<close>

fun proto_scan :: "l2p_proto_entry list \<Rightarrow> u64 \<Rightarrow> u64" where
  "proto_scan [] item_index = - 1"
| "proto_scan (e # es) item_index =
     (if pe_item_index e = item_index then pe_offset e - 1 else proto_scan es item_index)"

definition l2p_proto_index_lookup :: "fs \<Rightarrow> id_part \<Rightarrow> u64 \<Rightarrow> error + u64" where
  "l2p_proto_index_lookup fs txn_id item_index =
     (case l2p_proto_index_file fs txn_id of
        None \<Rightarrow> Inl IO_error
      | Some proto \<Rightarrow> Inr (proto_scan proto item_index))"

text \<open>
  \<^verbatim>\<open>get_l2p_header\<close>: the whole header from the cache, or from the file.
\<close>

definition get_l2p_header :: "fs \<Rightarrow> int \<Rightarrow> error + (l2p_header \<times> fs)" where
  "get_l2p_header fs revision =
     (case l2p_header_cache fs (base_revision fs revision, is_packed_rev fs revision) of
        Some header \<Rightarrow> Inr (header, fs)
      | None \<Rightarrow>
          (case get_l2p_header_body fs None revision of
             Inl e \<Rightarrow> Inl e
           | Inr (header, h, fs') \<Rightarrow> Inr (header, fs')))"

text \<open>
  The loop of \<^verbatim>\<open>svn_fs_fs__l2p_get_max_ids\<close> over the revisions from \<open>revision\<close>
  up to \<open>last_rev\<close>. The item count is computed in \<^verbatim>\<open>apr_uint64_t\<close>. The arrays
  are read with bounds checks the C code does not have.
\<close>

function get_max_ids_loop :: "fs \<Rightarrow> l2p_header \<Rightarrow> int \<Rightarrow> int \<Rightarrow> error + (u64 list \<times> fs)" where
  "get_max_ids_loop fs header revision last_rev =
     (if revision < last_rev
      then
        (case (if revision \<ge> first_revision header + int (revision_count header)
               then get_l2p_header fs revision else Inr (header, fs)) of
           Inl e \<Rightarrow> Inl e
         | Inr (header', fs') \<Rightarrow>
             (if revision - first_revision header' < 0 then Inl Out_of_bounds
              else
             (case array_read (page_table_index header') (nat (revision - first_revision header')) of
                Inl e \<Rightarrow> Inl e
              | Inr first_page_index \<Rightarrow>
             (case array_read (page_table_index header') (nat (revision - first_revision header') + 1) of
                Inl e \<Rightarrow> Inl e
              | Inr last_page_index \<Rightarrow>
             (if last_page_index = 0 then Inl Out_of_bounds
              else
             (case array_read (page_table header') (last_page_index - 1) of
                Inl e \<Rightarrow> Inl e
              | Inr last_page \<Rightarrow>
                 (let full_page_count = (of_nat last_page_index - of_nat first_page_index - 1 :: u64);
                      item_count = full_page_count * of_nat (page_size header')
                                     + of_nat (pte_entry_count last_page)
                  in case get_max_ids_loop fs' header' (revision + 1) last_rev of
                       Inl e \<Rightarrow> Inl e
                     | Inr (rest, fs'') \<Rightarrow> Inr (item_count # rest, fs''))))))))
      else Inr ([], fs))"
  by pat_completeness auto
termination
  by (relation "measure (\<lambda>(fs, header, revision, last_rev). nat (last_rev - revision))") auto

declare get_max_ids_loop.simps [simp del]

definition l2p_get_max_ids :: "fs \<Rightarrow> int \<Rightarrow> nat \<Rightarrow> error + (u64 list \<times> fs)" where
  "l2p_get_max_ids fs start_rev count =
     (case get_l2p_header fs start_rev of
        Inl e \<Rightarrow> Inl e
      | Inr (header, fs') \<Rightarrow> get_max_ids_loop fs' header start_rev (start_rev + int count))"

text \<open>\<^verbatim>\<open>svn_fs_fs__item_offset\<close>; \<open>txn_id\<close> is \<open>None\<close> for a \<^verbatim>\<open>NULL\<close> pointer.\<close>

definition item_offset :: "fs \<Rightarrow> int \<Rightarrow> id_part option \<Rightarrow> u64 \<Rightarrow> error + (u64 \<times> fs)" where
  "item_offset fs revision txn_id item_index =
     (case txn_id of
        Some txn \<Rightarrow>
          (if use_log_addressing fs (id_revision txn + 1)
           then (case l2p_proto_index_lookup fs txn item_index of
                   Inl e \<Rightarrow> Inl e
                 | Inr off \<Rightarrow> Inr (off, fs))
           else Inr (item_index, fs))
      | None \<Rightarrow>
          (if use_log_addressing fs revision then l2p_index_lookup fs revision item_index
           else if is_packed_rev fs revision
           then Inr (word_of_int (get_packed_offset fs revision) + item_index, fs)
           else Inr (item_index, fs)))"

definition example_txn_fs :: fs where
  "example_txn_fs =
     \<lparr> max_files_per_dir = 4, ffd_block_size = 0x10000, l2p_page_size = 4, p2l_page_size = 64,
       is_packed_rev = (\<lambda>r. False), use_log_addressing = (\<lambda>r. True),
       get_packed_offset = (\<lambda>r. 0),
       l2p_index_file = (\<lambda>r. None), p2l_index_file = (\<lambda>r. None),
       l2p_proto_index_file = (\<lambda>t. Some [\<lparr>pe_offset = 10, pe_item_index = 1\<rparr>,
                                          \<lparr>pe_offset = 0, pe_item_index = 0\<rparr>,
                                          \<lparr>pe_offset = 5, pe_item_index = 0\<rparr>]),
       l2p_header_cache = (\<lambda>k. None), l2p_page_cache = (\<lambda>k. None),
       p2l_header_cache = (\<lambda>k. None), p2l_page_cache = (\<lambda>k. None) \<rparr>"

definition handle_at :: "u64 list \<Rightarrow> stream_handle \<Rightarrow> nat \<Rightarrow> bool" where
  "handle_at vs h k \<longleftrightarrow> fst h = encode_all vs \<and> stream_at vs (snd h) k"

fun index_sums :: "nat \<Rightarrow> u64 list \<Rightarrow> nat list" where
  "index_sums idx [] = []"
| "index_sums idx (v # vs) = (idx + unat v) mod 2 ^ 64 # index_sums ((idx + unat v) mod 2 ^ 64) vs"

fun table_entries :: "u64 list \<Rightarrow> l2p_page_table_entry list" where
  "table_entries (sz # cnt # rest) =
     \<lparr> pte_offset = 0, pte_entry_count = unat (ucast cnt :: 32 word),
       pte_size = unat (ucast sz :: 32 word) \<rparr> # table_entries rest"
| "table_entries _ = []"

fun decode_offsets :: "u64 \<Rightarrow> u64 list \<Rightarrow> u64 list" where
  "decode_offsets last_value [] = []"
| "decode_offsets last_value (v # vs) =
     (last_value + decode_int v - 1) # decode_offsets (last_value + decode_int v) vs"

definition header_rev_count :: "u64 list \<Rightarrow> nat" where
  "header_rev_count vs = unat (scast (ucast (vs ! 2) :: 32 word) :: u64)"

definition header_end :: "u64 list \<Rightarrow> nat" where
  "header_end vs = 4 + header_rev_count vs + 2 * unat (vs ! 3)"

definition parsed_header :: "u64 list \<Rightarrow> l2p_header" where
  "parsed_header vs =
     \<lparr> first_revision = sint (vs ! 0), revision_count = header_rev_count vs,
       page_size = unat (vs ! 1),
       page_table_index = 0 # index_sums 0 (take (header_rev_count vs) (drop 4 vs)),
       page_table = correct_offsets (int (bpos vs (header_end vs)))
                      (table_entries (take (2 * unat (vs ! 3)) (drop (4 + header_rev_count vs) vs))) \<rparr>"

definition example_fs :: "bool \<Rightarrow> byte list \<Rightarrow> fs" where
  "example_fs packed idx =
     \<lparr> max_files_per_dir = 4, ffd_block_size = 0x10000, l2p_page_size = 4, p2l_page_size = 64,
       is_packed_rev = (\<lambda>r. packed \<and> r < 4), use_log_addressing = (\<lambda>r. True),
       get_packed_offset = (\<lambda>r. 0),
       l2p_index_file = (\<lambda>r. if packed \<and> r < 4 \<or> r = 0 then Some idx else None),
       p2l_index_file = (\<lambda>r. None),
       l2p_proto_index_file = (\<lambda>t. None),
       l2p_header_cache = (\<lambda>k. None), l2p_page_cache = (\<lambda>k. None),
       p2l_header_cache = (\<lambda>k. None), p2l_page_cache = (\<lambda>k. None) \<rparr>"

definition scenario1 :: "l2p_proto_entry list" where
  "scenario1 = [\<lparr>pe_offset = 10, pe_item_index = 0\<rparr>, \<lparr>pe_offset = 20, pe_item_index = 1\<rparr>,
                \<lparr>pe_offset = 0, pe_item_index = 0\<rparr>]"

definition entry_ok :: "u64 list \<Rightarrow> l2p_page_table_entry \<Rightarrow> bool" where
  "entry_ok vs e \<longleftrightarrow> (\<exists>k. pte_offset e = int (bpos vs k) \<and> k + pte_entry_count e \<le> length vs)"

definition decoded_page :: "u64 list \<Rightarrow> nat \<Rightarrow> nat \<Rightarrow> l2p_page" where
  "decoded_page vs k n = \<lparr> entry_count = n, offsets = decode_offsets 0 (take n (drop k vs)) \<rparr>"

fun deltas :: "u64 \<Rightarrow> u64 list \<Rightarrow> u64 list" where
  "deltas last_value [] = []"
| "deltas last_value (v # vs) = zigzag (v - last_value) # deltas v vs"

definition page_chunk :: "nat \<Rightarrow> u64 list \<Rightarrow> nat \<Rightarrow> u64 list" where
  "page_chunk P E p = take P (drop (p * P) E)"

definition page_number :: "nat \<Rightarrow> nat \<Rightarrow> nat" where
  "page_number P n = (n + P - 1) div P"

definition raw_pages :: "nat \<Rightarrow> u64 list \<Rightarrow> nat \<Rightarrow> u64 list list" where
  "raw_pages P E p = map (\<lambda>q. deltas 0 (page_chunk P E q)) [p ..< page_number P (length E)]"

fun store_all :: "l2p_proto_entry list \<Rightarrow> u64 list \<Rightarrow> u64 list" where
  "store_all [] E = E"
| "store_all (e # es) E =
     store_all es ((E @ replicate (unat (pe_item_index e) + 1 - length E) 0)
                     [unat (pe_item_index e) := pe_offset e])"

definition data_record :: "l2p_proto_entry \<Rightarrow> bool" where
  "data_record e \<longleftrightarrow> pe_offset e \<noteq> 0 \<and> unat (pe_item_index e) < 2147483647"

definition scenario2 :: "l2p_proto_entry list" where
  "scenario2 = [\<lparr>pe_offset = 10, pe_item_index = 0\<rparr>, \<lparr>pe_offset = 0, pe_item_index = 0\<rparr>,
                \<lparr>pe_offset = 0, pe_item_index = 0\<rparr>, \<lparr>pe_offset = 20, pe_item_index = 0\<rparr>]"

section \<open>Properties of the packed integer codec\<close>

lemma unat_low7: "unat ((v::u64) mod 0x80 + 0x80) = unat v mod 128 + 128"
proof -
  have "unat (v mod 0x80) = unat v mod 128" by (simp add: unat_mod)
  moreover have "unat v mod 128 < 128" by simp
  ultimately show ?thesis by (simp add: unat_word_ariths)
qed

lemma unat_ucast_byte: "unat (ucast (w::u64) :: byte) = unat w mod 256"
  by (simp add: unsigned_ucast_eq take_bit_eq_mod)

lemma unat_ucast_u64: "unat (ucast (b::byte) :: u64) = unat b"
proof -
  have "unat b < 2 ^ 8" using unsigned_less [of b] by simp
  then show ?thesis by (simp add: unsigned_ucast_eq take_bit_eq_mod)
qed

lemma unat_and_7f: "unat ((w::u64) AND 0x7f) = unat w mod 128"
proof -
  have "w AND 0x7f = take_bit 7 w" by (simp add: take_bit_eq_mask mask_eq_exp_minus_1)
  then show ?thesis by (simp add: unsigned_take_bit_eq take_bit_eq_mod unat_mod)
qed

lemma cont_byte_ge: "(ucast ((v::u64) mod 0x80 + 0x80) :: byte) \<ge> 0x80"
  by (simp add: word_le_nat_alt unat_ucast_byte unat_low7)

lemma cont_byte_payload: "(ucast (ucast ((v::u64) mod 0x80 + 0x80) :: byte) :: u64) AND 0x7f = v mod 0x80"
  by (simp add: word_unat_eq_iff unat_and_7f unat_ucast_u64 unat_ucast_byte unat_low7 unat_mod)

lemma final_byte_less: "(ucast ((v::u64) mod 0x80) :: byte) < 0x80"
  by (simp add: word_less_nat_alt unat_ucast_byte unat_mod)

lemma final_byte_value: "(v::u64) < 0x80 \<Longrightarrow> (ucast (ucast (v mod 0x80) :: byte) :: u64) = v"
  by (simp add: word_less_nat_alt word_unat_eq_iff unat_ucast_u64 unat_ucast_byte unat_mod)

lemma push_bit_split7: "push_bit (shift+7) ((v::u64) div 0x80) + push_bit shift (v mod 0x80) = push_bit shift v"
proof -
  have "v = (v div 0x80) * 0x80 + v mod 0x80" by (simp only: word_mod_div_equality)
  then have "push_bit shift v = push_bit shift ((v div 0x80) * 0x80 + v mod 0x80)" by simp
  also have "\<dots> = push_bit shift (push_bit 7 (v div 0x80)) + push_bit shift (v mod 0x80)"
    by (simp add: push_bit_eq_mult algebra_simps)
  finally show ?thesis by (simp add: push_bit_push_bit add.commute)
qed

lemma encode_uint_nonempty: "encode_uint v \<noteq> []"
  by (subst encode_uint.simps) simp

lemma encode_uint_small: "v < 0x80 \<Longrightarrow> encode_uint v = [ucast (v mod 0x80)]"
  by (subst encode_uint.simps) (simp add: not_le [symmetric])

lemma encode_uint_large:
  "v \<ge> 0x80 \<Longrightarrow> encode_uint v = ucast ((v mod 0x80) + 0x80) # encode_uint (v div 0x80)"
  by (subst encode_uint.simps) simp

lemma encode_uint_last: "last (encode_uint v) < 0x80"
proof (induction v rule: encode_uint.induct)
  case (1 v)
  show ?case
  proof (cases "v \<ge> 0x80")
    case True
    with 1 show ?thesis by (simp add: encode_uint_large encode_uint_nonempty)
  next
    case False
    then show ?thesis by (simp add: encode_uint_small final_byte_less)
  qed
qed

lemma encode_uint_prefix_cont:
  "k < length (encode_uint v) \<Longrightarrow> b \<in> set (take k (encode_uint v)) \<Longrightarrow> b \<ge> 0x80"
proof (induction v arbitrary: k rule: encode_uint.induct)
  case (1 v)
  show ?case
  proof (cases "v \<ge> 0x80")
    case True
    from 1(2,3) True obtain k' where k: "k = Suc k'"
      by (cases k) auto
    from 1(3) True k have "b = ucast ((v mod 0x80) + 0x80) \<or> b \<in> set (take k' (encode_uint (v div 0x80)))"
      by (simp add: encode_uint_large)
    moreover from 1(2) True k have "k' < length (encode_uint (v div 0x80))"
      by (simp add: encode_uint_large)
    ultimately show ?thesis using 1(1) [OF True] cont_byte_ge by blast
  next
    case False
    with 1(2,3) show ?thesis by (simp add: encode_uint_small)
  qed
qed

lemma encode_uint_length_bound:
  "unat v < 2 ^ (7 * Suc k) \<Longrightarrow> length (encode_uint v) \<le> Suc k"
proof (induction k arbitrary: v)
  case 0
  then have "v < 0x80" by (simp add: word_less_nat_alt)
  then show ?case by (simp add: encode_uint_small)
next
  case (Suc k)
  show ?case
  proof (cases "v \<ge> 0x80")
    case True
    have "unat (v div 0x80) = unat v div 128" by (simp add: unat_div)
    moreover from Suc.prems have "unat v div 128 < 2 ^ (7 * Suc k)"
      by (simp add: less_mult_imp_div_less power_add)
    ultimately have "length (encode_uint (v div 0x80)) \<le> Suc k"
      using Suc.IH by simp
    with True show ?thesis by (simp add: encode_uint_large)
  next
    case False
    then show ?thesis by (simp add: encode_uint_small)
  qed
qed

lemma encode_uint_length_le: "length (encode_uint v) \<le> 10"
proof -
  have "unat v < 2 ^ 64" using unsigned_less [of v] by simp
  also have "(2::nat) ^ 64 \<le> 2 ^ (7 * Suc 9)" by simp
  finally show ?thesis using encode_uint_length_bound [of v 9] by simp
qed

lemma neg_iff_bit: "sint (v::u64) < 0 \<longleftrightarrow> bit v 63"
  using bit_last_iff [of v] by simp

lemma bit_double: "bit ((v::u64) * 2) n \<longleftrightarrow> 0 < n \<and> n < 64 \<and> bit v (n - 1)"
  using bit_push_bit_iff [of 1 v n] by (auto simp: push_bit_eq_mult bit_simps)

lemma bit_half: "bit ((v::u64) div 2) n \<longleftrightarrow> bit v (Suc n)"
  using bit_drop_bit_eq [of 1 v] by (simp add: drop_bit_eq_div)

lemma zigzag_bits: "zigzag v = (if bit v 63 then NOT (v * 2) else v * 2)"
  by (simp add: zigzag_def neg_iff_bit not_eq_complement mult.commute)

lemma decode_int_bits: "decode_int v = (if bit v 0 then NOT (v div 2) else v div 2)"
  by (simp add: decode_int_def not_eq_complement bit_0 odd_iff_mod_2_eq_one)

lemma decode_int_zigzag: "decode_int (zigzag v) = v"
proof (cases "bit v 63")
  case True
  then have "bit (zigzag v) 0" by (simp add: zigzag_bits bit_not_iff bit_double)
  moreover have "NOT ((NOT (v * 2)) div 2) = v"
  proof (rule bit_word_eqI)
    fix n assume "n < LENGTH(64)"
    then show "bit (NOT (NOT (v * 2) div 2)) n = bit v n"
      using True by (cases "n = 63") (auto simp: bit_not_iff bit_half bit_double)
  qed
  ultimately show ?thesis using True by (simp add: zigzag_bits decode_int_bits)
next
  case False
  then have "\<not> bit (zigzag v) 0" by (simp add: zigzag_bits bit_double)
  moreover have "(v * 2) div 2 = v"
  proof (rule bit_word_eqI)
    fix n assume "n < LENGTH(64)"
    then show "bit (v * 2 div 2) n = bit v n"
      using False by (cases "n = 63") (auto simp: bit_half bit_double)
  qed
  ultimately show ?thesis using False by (simp add: zigzag_bits decode_int_bits)
qed

lemma encode_all_simps [simp]:
  "encode_all [] = []"
  "encode_all (v # vs) = encode_uint v @ encode_all vs"
  "encode_all (vs @ ws) = encode_all vs @ encode_all ws"
  by (simp_all add: encode_all_def)

lemma length_encode_uint: "length (encode_uint v) = Suc (cont_count v)"
  using encode_uint_nonempty [of v] by (cases "encode_uint v") (auto simp: cont_count_def)

lemma cont_count_large: "v \<ge> 0x80 \<Longrightarrow> cont_count v = Suc (cont_count (v div 0x80))"
  using length_encode_uint [of "v div 0x80"] by (simp add: cont_count_def encode_uint_large)

lemma cont_count_small: "v < 0x80 \<Longrightarrow> cont_count v = 0"
  by (simp add: cont_count_def encode_uint_small)

lemma cont_count_le: "cont_count v \<le> 9"
  using encode_uint_length_le [of v] by (simp add: length_encode_uint)

lemma read_continuation_encode:
  "read_continuation (encode_uint v @ rest) i val shift =
     (val + push_bit shift v
        - push_bit (shift + 7 * cont_count v) (ucast (last (encode_uint v))),
      shift + 7 * cont_count v, i + cont_count v, last (encode_uint v) # rest)"
proof (induction v arbitrary: i val shift rule: encode_uint.induct)
  case (1 v)
  show ?case
  proof (cases "v \<ge> 0x80")
    case True
    let ?v' = "v div 0x80"
    have "val + push_bit shift (v mod 0x80) + push_bit (shift + 7) ?v' = val + push_bit shift v"
      using push_bit_split7 [of shift v] by (simp add: algebra_simps)
    then have "read_continuation (encode_uint ?v' @ rest) (i + 1)
                 (val + push_bit shift (v mod 0x80)) (shift + 7) =
       (val + push_bit shift v
          - push_bit (shift + 7 * cont_count v) (ucast (last (encode_uint ?v'))),
        shift + 7 * cont_count v, i + cont_count v, last (encode_uint ?v') # rest)"
      using 1 [OF True, of "i + 1" "val + push_bit shift (v mod 0x80)" "shift + 7"]
      by (simp add: cont_count_large [OF True] add.assoc)
    then show ?thesis
      using True
      by (simp add: encode_uint_large cont_byte_ge cont_byte_payload encode_uint_nonempty)
  next
    case False
    then have "v < 0x80" by simp
    then show ?thesis
      using final_byte_less [of v]
      by (simp add: encode_uint_small final_byte_value cont_count_small not_le [symmetric])
  qed
qed

lemma expand_buffer_encoded:
  "expand_buffer (encode_all vs) i target =
     (target @ positions vs i, i + length (encode_all vs), None)"
proof (induction vs arbitrary: i target)
  case Nil
  show ?case by simp
next
  case (Cons v vs)
  show ?case
  proof (cases "v \<ge> 0x80")
    case True
    have shift: "\<not> 7 * cont_count v > 64" using cont_count_le [of v] by arith
    obtain b bs where bbs: "encode_uint v = b # bs" and b: "b \<ge> 0x80"
      using True cont_byte_ge by (auto simp: encode_uint_large)
    have "expand_buffer (encode_all (v # vs)) i target
        = expand_buffer (encode_all vs) (i + length (encode_uint v))
            (target @ [(v, i + length (encode_uint v))])"
      using read_continuation_encode [of v "encode_all vs" i 0 0] b shift
      by (simp add: bbs [symmetric] length_encode_uint not_less [symmetric] del: read_continuation.simps) (simp add: bbs not_less [symmetric] del: read_continuation.simps)
    then show ?thesis
      using Cons.IH [of "i + length (encode_uint v)" "target @ [(v, i + length (encode_uint v))]"]
      by (simp add: add.assoc)
  next
    case False
    then have "v < 0x80" by simp
    then show ?thesis
      using Cons.IH [of "i + 1" "target @ [(v, i + 1)]"] final_byte_less [of v]
      by (simp add: encode_uint_small final_byte_value)
  qed
qed

lemma bpos_0 [simp]: "bpos vs 0 = 0"
  by (simp add: bpos_def)

lemma bpos_Suc: "k < length vs \<Longrightarrow> bpos vs (Suc k) = bpos vs k + length (encode_uint (vs ! k))"
  by (simp add: bpos_def take_Suc_conv_app_nth)

lemma bpos_length: "bpos vs (length vs) = length (encode_all vs)"
  by (simp add: bpos_def)

lemma bpos_add: "bpos vs (j + i) = bpos vs j + bpos (drop j vs) i"
proof -
  have "take (j + i) vs = take j vs @ take i (drop j vs)"
    by (simp add: take_add)
  then show ?thesis by (simp add: bpos_def)
qed

lemma bpos_less_Suc: "k < length vs \<Longrightarrow> bpos vs k < bpos vs (Suc k)"
  by (simp add: bpos_Suc length_encode_uint)

lemma bpos_mono: "j \<le> k \<Longrightarrow> bpos vs j \<le> bpos vs k"
proof -
  assume "j \<le> k"
  then obtain d where "k = j + d" using le_Suc_ex by blast
  then show ?thesis by (simp add: bpos_add)
qed

lemma bpos_strict_mono: "j < k \<Longrightarrow> k \<le> length vs \<Longrightarrow> bpos vs j < bpos vs k"
proof -
  assume jk: "j < k" and k: "k \<le> length vs"
  then have "bpos vs j < bpos vs (Suc j)" by (simp add: bpos_less_Suc)
  also have "\<dots> \<le> bpos vs k" using jk by (simp add: bpos_mono)
  finally show ?thesis .
qed

lemma bpos_less_iff: "j \<le> length vs \<Longrightarrow> k \<le> length vs \<Longrightarrow> bpos vs j < bpos vs k \<longleftrightarrow> j < k"
  by (metis bpos_mono bpos_strict_mono leD not_le_imp_less)

lemma drop_bpos: "drop (bpos vs j) (encode_all vs) = encode_all (drop j vs)"
proof -
  have "encode_all vs = encode_all (take j vs) @ encode_all (drop j vs)"
    by (metis append_take_drop_id encode_all_simps(3))
  then show ?thesis by (simp add: bpos_def)
qed

lemma take_encode_all:
  "\<exists>part. take n (encode_all ws) = encode_all (take (fit ws n) ws) @ part
        \<and> (\<forall>b\<in>set part. b \<ge> 0x80)"
proof (induction ws arbitrary: n)
  case Nil
  show ?case by simp
next
  case (Cons v vs)
  show ?case
  proof (cases "length (encode_uint v) \<le> n")
    case True
    from Cons.IH [of "n - length (encode_uint v)"] True show ?thesis by auto
  next
    case False
    then have "\<forall>b\<in>set (take n (encode_uint v)). b \<ge> 0x80"
      using encode_uint_prefix_cont [of n v] by auto
    with False show ?thesis by simp
  qed
qed

lemma fit_le_length: "fit ws n \<le> length ws"
  by (induction ws arbitrary: n) auto

lemma fit_pos: "ws \<noteq> [] \<Longrightarrow> 10 \<le> n \<Longrightarrow> 0 < fit ws n"
  using encode_uint_length_le by (cases ws) (auto intro: order_trans)

lemma encode_all_last: "vs \<noteq> [] \<Longrightarrow> last (encode_all vs) < 0x80"
proof -
  assume "vs \<noteq> []"
  then have "encode_all vs = encode_all (butlast vs) @ encode_uint (last vs)"
    by (metis append_butlast_last_id encode_all_simps(1,2,3) append_Nil2)
  then show ?thesis by (simp add: encode_uint_nonempty encode_uint_last)
qed

lemma encode_all_eq_Nil [simp]: "encode_all vs = [] \<longleftrightarrow> vs = []"
  by (cases vs) (simp_all add: encode_uint_nonempty)

lemma trim_incomplete_append:
  "\<forall>b\<in>set part. b \<ge> 0x80 \<Longrightarrow> A = [] \<or> last A < 0x80 \<Longrightarrow>
   trim_incomplete (A @ part @ extra) (length A + length part) = length A"
proof (induction part arbitrary: extra rule: rev_induct)
  case Nil
  show ?case
  proof (cases A rule: rev_cases)
    case Nil
    then show ?thesis by simp
  next
    case (snoc ys y)
    with Nil.prems show ?thesis by (simp add: nth_append not_le [symmetric])
  qed
next
  case (snoc x xs)
  have "(A @ (xs @ [x]) @ extra) ! (length A + length xs) = x"
    by (simp add: nth_append)
  moreover have "x \<ge> 0x80" using snoc.prems by simp
  ultimately show ?case
    using snoc.IH [of "x # extra"] snoc.prems by simp
qed

lemma positions_length [simp]: "length (positions vs i) = length vs"
  by (induction vs arbitrary: i) auto

lemma positions_nth: "k < length vs \<Longrightarrow> positions vs i ! k = (vs ! k, i + bpos vs (Suc k))"
proof (induction vs arbitrary: i k)
  case Nil
  then show ?case by simp
next
  case (Cons v vs)
  show ?case
  proof (cases k)
    case 0
    then show ?thesis by (simp add: bpos_def)
  next
    case (Suc k')
    with Cons show ?thesis by (simp add: bpos_def)
  qed
qed

lemma prefetch_size_ge: "10 \<le> prefetch_size bs off"
  by (auto simp: prefetch_size_def MAX_NUMBER_PREFETCH_def Let_def)

lemma packed_stream_read_encoded:
  assumes j: "j < length vs" and nxt: "next_offset s = int (bpos vs j)"
  shows "\<exists>s'. packed_stream_read (encode_all vs) s = (None, s') \<and> buffered vs s' j
            \<and> current s' = 0 \<and> 0 < used s' \<and> block_size s' = block_size s"
proof -
  define rd where "rd = prefetch_size (block_size s) (next_offset s)"
  define ws where "ws = drop j vs"
  define m where "m = fit ws rd"
  define buf where "buf = file_read (encode_all vs) (nat (next_offset s)) rd"
  have rd: "10 \<le> rd" unfolding rd_def by (rule prefetch_size_ge)
  have ws: "ws \<noteq> []" using j by (simp add: ws_def)
  have m: "0 < m" "m \<le> length ws" using fit_pos [OF ws rd] fit_le_length by (simp_all add: m_def)
  have "buf = take rd (encode_all ws)"
    by (simp add: buf_def file_read_def nxt drop_bpos ws_def)
  then obtain part where buf: "buf = encode_all (take m ws) @ part" and part: "\<forall>b\<in>set part. b \<ge> 0x80"
    using take_encode_all [of rd ws] by (auto simp: m_def)
  have tk: "take m ws \<noteq> []" using m ws by (cases ws) auto
  have trim: "trim_incomplete buf (length buf) = length (encode_all (take m ws))"
    using trim_incomplete_append [OF part, of "encode_all (take m ws)" "[]"] encode_all_last [OF tk]
    by (simp add: buf)
  have pos: "0 < length (encode_all (take m ws))" using tk by simp
  have tkbuf: "take (length (encode_all (take m ws))) buf = encode_all (take m ws)"
    by (simp add: buf)
  define s' where "s' = s\<lparr>start_offset := next_offset s,
      buffer := positions (take m ws) 0 @ drop m (buffer s),
      used := m, next_offset := next_offset s + int (length (encode_all (take m ws))),
      current := 0\<rparr>"
  have res: "packed_stream_read (encode_all vs) s = (None, s')"
  proof -
    have bufeq: "file_read (encode_all vs) (bpos vs j) (prefetch_size (block_size s) (int (bpos vs j))) = buf"
      by (simp add: buf_def rd_def nxt)
    show ?thesis
      unfolding packed_stream_read_def Let_def
      using pos m
      by (simp add: nxt bufeq trim tkbuf expand_buffer_encoded s'_def)
  qed
  have len: "bpos vs (j + m) = bpos vs j + length (encode_all (take m ws))"
    by (simp add: bpos_add ws_def bpos_def [of "drop j vs"])
  have ent: "\<forall>i<m. buffer s' ! i = (vs ! (j + i), bpos vs (Suc (j + i)) - bpos vs j)"
  proof (intro allI impI)
    fix i assume i: "i < m"
    then have "buffer s' ! i = positions (take m ws) 0 ! i"
      using m by (simp add: s'_def nth_append)
    also have "\<dots> = ((take m ws) ! i, bpos (take m ws) (Suc i))"
      using i m by (simp add: positions_nth)
    also have "(take m ws) ! i = vs ! (j + i)" using i m by (simp add: ws_def)
    also have "bpos (take m ws) (Suc i) = bpos ws (Suc i)"
      using i by (simp add: bpos_def min_def)
    also have "\<dots> = bpos vs (Suc (j + i)) - bpos vs j"
      using bpos_add [of vs j "Suc i"] by (simp add: ws_def)
    finally show "buffer s' ! i = (vs ! (j + i), bpos vs (Suc (j + i)) - bpos vs j)" .
  qed
  have "buffered vs s' j"
    unfolding buffered_def using m ent
    by (simp add: s'_def nxt len ws_def)
  then show ?thesis using res m by (simp add: s'_def)
qed

lemma stream_at_get:
  assumes at: "stream_at vs s k" and k: "k < length vs"
  shows "\<exists>s'. packed_stream_get (encode_all vs) s = (Inr (vs ! k), s') \<and> stream_at vs s' (Suc k)
            \<and> block_size s' = block_size s"
proof -
  from at obtain j where b: "buffered vs s j" and kj: "k = j + current s"
    by (auto simp: stream_at_def)
  show ?thesis
  proof (cases "current s = used s")
    case True
    with b kj have nxt: "next_offset s = int (bpos vs k)" by (simp add: buffered_def)
    from packed_stream_read_encoded [OF k nxt] obtain s1 where
      rd: "packed_stream_read (encode_all vs) s = (None, s1)" and b1: "buffered vs s1 k"
      and c1: "current s1 = 0" and u1: "0 < used s1" and bs: "block_size s1 = block_size s"
      by blast
    from b1 c1 u1 have v: "fst (buffer s1 ! 0) = vs ! k" by (simp add: buffered_def)
    have "buffered vs (s1\<lparr>current := Suc 0\<rparr>) k" using b1 u1 by (simp add: buffered_def)
    then have "stream_at vs (s1\<lparr>current := Suc 0\<rparr>) (Suc k)" by (auto simp: stream_at_def)
    then show ?thesis using True rd v c1 bs by (simp add: packed_stream_get_def)
  next
    case False
    with b have lt: "current s < used s" by (simp add: buffered_def)
    with b kj have v: "fst (buffer s ! current s) = vs ! k" by (simp add: buffered_def)
    have "buffered vs (s\<lparr>current := Suc (current s)\<rparr>) j" using b lt by (simp add: buffered_def)
    then have "stream_at vs (s\<lparr>current := Suc (current s)\<rparr>) (Suc k)" using kj by (auto simp: stream_at_def)
    then show ?thesis using False v by (simp add: packed_stream_get_def)
  qed
qed

lemma stream_at_offset:
  assumes "stream_at vs s k"
  shows "packed_stream_offset s = int (bpos vs k)"
proof -
  from assms obtain j where b: "buffered vs s j" and kj: "k = j + current s"
    by (auto simp: stream_at_def)
  show ?thesis
  proof (cases "current s")
    case 0
    with b kj show ?thesis by (simp add: packed_stream_offset_def buffered_def)
  next
    case (Suc c)
    with b have "c < used s" by (simp add: buffered_def)
    with b have "buffer s ! c = (vs ! (j + c), bpos vs (Suc (j + c)) - bpos vs j)"
      by (simp add: buffered_def)
    moreover have "bpos vs j \<le> bpos vs (Suc (j + c))" by (simp add: bpos_mono)
    ultimately show ?thesis using b kj Suc by (simp add: packed_stream_offset_def buffered_def)
  qed
qed

lemma stream_at_open: "stream_at vs (packed_stream_open bs) 0"
  by (simp add: stream_at_def buffered_def packed_stream_open_def)

lemma seek_scan_found:
  "i \<le> c \<Longrightarrow> c < n \<Longrightarrow> \<forall>i'<c. int (snd (buf ! i')) \<le> rel \<Longrightarrow> int (snd (buf ! c)) > rel \<Longrightarrow>
   seek_scan buf n i rel = c"
proof (induction "c - i" arbitrary: i)
  case 0
  then show ?case by (subst seek_scan.simps) simp
next
  case (Suc d)
  then have "i < c" by simp
  with Suc.prems have "\<not> int (snd (buf ! i)) > rel" by (simp add: not_less)
  moreover have "seek_scan buf n (i + 1) rel = c"
    using Suc.hyps Suc.prems \<open>i < c\<close> by (intro Suc.hyps(1)) auto
  ultimately show ?case using \<open>i < c\<close> Suc.prems by (subst seek_scan.simps) simp
qed

lemma buffered_seek:
  assumes b: "buffered vs s j" and k: "k \<le> length vs"
  shows "stream_at vs (packed_stream_seek s (int (bpos vs k))) k"
proof (cases "used s = 0 \<or> int (bpos vs k) < start_offset s \<or> int (bpos vs k) \<ge> next_offset s")
  case True
  then have "packed_stream_seek s (int (bpos vs k))
      = s\<lparr>start_offset := int (bpos vs k), next_offset := int (bpos vs k), current := 0, used := 0\<rparr>"
    by (simp add: packed_stream_seek_def)
  moreover have "buffered vs (s\<lparr>start_offset := int (bpos vs k), next_offset := int (bpos vs k),
      current := 0, used := 0\<rparr>) k"
    using k by (simp add: buffered_def)
  ultimately show ?thesis by (auto simp: stream_at_def)
next
  case False
  with b have lo: "bpos vs j \<le> bpos vs k" and hi: "bpos vs k < bpos vs (j + used s)"
    by (simp_all add: buffered_def)
  from b have ju: "j + used s \<le> length vs" by (simp add: buffered_def)
  from hi k ju have kh: "k < j + used s" by (simp add: bpos_less_iff)
  from lo k ju have jk: "j \<le> k" by (metis bpos_less_iff leD le_add1 le_trans not_le_imp_less)
  have ents: "\<And>i. i < used s \<Longrightarrow> snd (buffer s ! i) = bpos vs (Suc (j + i)) - bpos vs j"
    using b by (simp add: buffered_def)
  have "seek_scan (buffer s) (used s) 0 (int (bpos vs k) - int (bpos vs j)) = k - j"
  proof (rule seek_scan_found)
    show "0 \<le> k - j" by simp
    show "k - j < used s" using kh jk by arith
    show "\<forall>i'<k - j. int (snd (buffer s ! i')) \<le> int (bpos vs k) - int (bpos vs j)"
    proof (intro allI impI)
      fix i' assume i': "i' < k - j"
      then have "i' < used s" using kh by arith
      moreover have "bpos vs (Suc (j + i')) \<le> bpos vs k" using i' by (intro bpos_mono) arith
      moreover have "bpos vs j \<le> bpos vs (Suc (j + i'))" by (intro bpos_mono) arith
      ultimately show "int (snd (buffer s ! i')) \<le> int (bpos vs k) - int (bpos vs j)"
        using ents [of i'] by simp
    qed
    have "k - j < used s" using kh jk by arith
    moreover have "bpos vs k < bpos vs (Suc k)" using kh ju by (intro bpos_less_Suc) arith
    ultimately show "int (bpos vs k) - int (bpos vs j) < int (snd (buffer s ! (k - j)))"
      using ents [of "k - j"] jk lo by simp
  qed
  moreover have "start_offset s = int (bpos vs j)" using b by (simp add: buffered_def)
  ultimately have "packed_stream_seek s (int (bpos vs k)) = s\<lparr>current := k - j\<rparr>"
    using False by (simp add: packed_stream_seek_def)
  moreover have "buffered vs (s\<lparr>current := k - j\<rparr>) j"
    using b kh jk by (simp add: buffered_def)
  ultimately show ?thesis using jk by (auto simp: stream_at_def)
qed

lemma stream_at_seek:
  "stream_at vs s k0 \<Longrightarrow> k \<le> length vs \<Longrightarrow> stream_at vs (packed_stream_seek s (int (bpos vs k))) k"
  by (auto simp: stream_at_def intro: buffered_seek [unfolded stream_at_def])

lemma packed_stream_seek_block_size [simp]: "block_size (packed_stream_seek s off) = block_size s"
  by (simp add: packed_stream_seek_def)

lemma read_continuation_mono:
  "read_continuation bs i val shift = (val', shift', i', rest) \<Longrightarrow> i \<le> i'"
  by (induction bs i val shift rule: read_continuation.induct) (auto split: if_splits)

lemma expand_buffer_success:
  "expand_buffer bs i target = (t', i', None) \<Longrightarrow>
   \<exists>new. t' = target @ new \<and> (bs = [] \<longrightarrow> new = [] \<and> i' = i)
      \<and> (bs \<noteq> [] \<longrightarrow> new \<noteq> [] \<and> snd (last new) = i' \<and> i < snd (hd new) \<and> i < i')"
proof (induction bs i target rule: expand_buffer.induct)
  case (1 i target)
  then show ?case by simp
next
  case (2 b bs i target)
  show ?case
  proof (cases "b < 0x80")
    case True
    with 2(3) have call: "expand_buffer bs (i + 1) (target @ [(ucast b, i + 1)]) = (t', i', None)"
      by simp
    from 2(1) [OF True call] obtain new where
      t': "t' = (target @ [(ucast b, i + 1)]) @ new" and
      e: "bs = [] \<longrightarrow> new = [] \<and> i' = i + 1" and
      ne: "bs \<noteq> [] \<longrightarrow> new \<noteq> [] \<and> snd (last new) = i' \<and> i + 1 < i'"
      by blast
    show ?thesis
      by (rule exI [of _ "(ucast b, i + 1) # new"]) (use t' e ne in auto)
  next
    case False
    obtain val shift j rest where rc: "read_continuation (b # bs) i 0 0 = (val, shift, j, rest)"
      by (cases "read_continuation (b # bs) i 0 0") auto
    from read_continuation_mono [OF rc] have ij: "i \<le> j" .
    show ?thesis
    proof (cases rest)
      case Nil
      with 2(3) False rc show ?thesis by simp
    next
      case (Cons b' rest')
      let ?t = "target @ [(val + push_bit shift (ucast b'), j + 1)]"
      from 2(3) False rc Cons have sh: "\<not> shift > 64"
        by (auto simp: Let_def split: if_splits)
      with 2(3) False rc Cons have call: "expand_buffer rest' (j + 1) ?t = (t', i', None)"
        by (simp add: Let_def)
      from 2(2) [OF False rc [symmetric] refl refl Cons refl sh call] obtain new where
        t': "t' = ?t @ new" and
        e: "rest' = [] \<longrightarrow> new = [] \<and> i' = j + 1" and
        ne: "rest' \<noteq> [] \<longrightarrow> new \<noteq> [] \<and> snd (last new) = i' \<and> j + 1 < i'"
        by blast
      show ?thesis
        by (rule exI [of _ "(val + push_bit shift (ucast b'), j + 1) # new"]) (use t' e ne ij in auto)
    qed
  qed
qed

lemma packed_stream_read_error:
  assumes "packed_stream_read file s = (Some e, s')"
  shows "start_offset s' = next_offset s \<and> next_offset s' = next_offset s \<and> used s' = used s
       \<and> current s' = current s \<and> block_size s' = block_size s"
  using assms
  by (auto simp: packed_stream_read_def Let_def split: if_splits prod.splits option.splits)

lemma packed_stream_read_success:
  assumes "packed_stream_read file s = (None, s')"
  shows "0 < used s' \<and> current s' = 0 \<and> start_offset s' = next_offset s
       \<and> next_offset s' = start_offset s' + int (snd (buffer s' ! (used s' - 1)))
       \<and> start_offset s' < next_offset s' \<and> 0 < snd (buffer s' ! 0)
       \<and> block_size s' = block_size s"
proof -
  define buf where "buf = file_read file (nat (next_offset s)) (prefetch_size (block_size s) (next_offset s))"
  define rd where "rd = trim_incomplete buf (length buf)"
  from assms have rd: "rd \<noteq> 0" and nn: "\<not> next_offset s < 0"
    by (auto simp: packed_stream_read_def Let_def buf_def rd_def split: if_splits)
  from assms rd nn obtain target i where ex: "expand_buffer (take rd buf) 0 [] = (target, i, None)"
    and s': "s' = s\<lparr>start_offset := next_offset s,
         buffer := target @ drop (length target) (buffer s),
         used := length target, next_offset := next_offset s + int i, current := 0\<rparr>"
    by (auto simp: packed_stream_read_def Let_def buf_def [symmetric] rd_def [symmetric]
          split: prod.splits option.splits)
  have le: "\<And>n. trim_incomplete buf n \<le> n"
  proof -
    fix n show "trim_incomplete buf n \<le> n" by (induction n) auto
  qed
  from rd le [of "length buf"] have "take rd buf \<noteq> []" by (auto simp: rd_def)
  with expand_buffer_success [OF ex] have t: "target \<noteq> []" "snd (last target) = i"
    "0 < snd (hd target)" "0 < i" by auto
  from t have "snd (target ! (length target - 1)) = i" by (simp add: last_conv_nth)
  moreover from t have "snd (target ! 0) > 0" by (simp add: hd_conv_nth)
  ultimately show ?thesis using t by (simp add: s' nth_append)
qed

lemma packed_stream_read_cong:
  "next_offset s = next_offset t \<Longrightarrow> block_size s = block_size t \<Longrightarrow>
   fst (packed_stream_read file s) = fst (packed_stream_read file t)"
  by (simp add: packed_stream_read_def Let_def split: prod.splits option.splits)

lemma seek_scan_less:
  "i \<le> c \<Longrightarrow> c < n \<Longrightarrow> int (snd (buf ! c)) > rel \<Longrightarrow> seek_scan buf n i rel \<le> c"
proof (induction "c - i" arbitrary: i)
  case 0
  then show ?case by (subst seek_scan.simps) simp
next
  case (Suc d)
  then have "i < c" by simp
  moreover have "seek_scan buf n (i + 1) rel \<le> c"
    using Suc.hyps Suc.prems \<open>i < c\<close> by (intro Suc.hyps(1)) auto
  ultimately show ?case using Suc.prems by (subst seek_scan.simps) simp
qed

lemma stream_inv_open: "stream_inv (packed_stream_open bs)"
  by (simp add: stream_inv_def packed_stream_open_def)

lemma stream_inv_seek: "stream_inv s \<Longrightarrow> stream_inv (packed_stream_seek s off)"
  by (auto simp: stream_inv_def packed_stream_seek_def)

lemma stream_inv_get: "stream_inv s \<Longrightarrow> stream_inv (snd (packed_stream_get file s))"
proof -
  assume inv: "stream_inv s"
  show ?thesis
  proof (cases "current s = used s")
    case True
    obtain r s' where rd: "packed_stream_read file s = (r, s')"
      by (cases "packed_stream_read file s") auto
    show ?thesis
    proof (cases r)
      case None
      with packed_stream_read_success [of "file" s s'] rd True show ?thesis
        by (simp add: packed_stream_get_def stream_inv_def)
    next
      case (Some e)
      with packed_stream_read_error [of "file" s e s'] rd True show ?thesis
        by (simp add: packed_stream_get_def stream_inv_def)
    qed
  next
    case False
    with inv show ?thesis by (simp add: packed_stream_get_def stream_inv_def)
  qed
qed

lemma streams_inv: "s \<in> streams file \<Longrightarrow> stream_inv s"
  by (induction rule: streams.induct) (simp_all add: stream_inv_open stream_inv_seek stream_inv_get)

lemma seek_get_twice:
  assumes inv: "stream_inv s"
  shows "fst (packed_stream_get file (packed_stream_seek (snd (packed_stream_get file (packed_stream_seek s off))) off))
       = fst (packed_stream_get file (packed_stream_seek s off))"
proof (cases "used s = 0 \<or> off < start_offset s \<or> off \<ge> next_offset s")
  case True
  define s0 where "s0 = s\<lparr>start_offset := off, next_offset := off, current := 0, used := 0\<rparr>"
  have sk: "packed_stream_seek s off = s0" using True by (simp add: packed_stream_seek_def s0_def)
  obtain r s1 where rd: "packed_stream_read file s0 = (r, s1)"
    by (cases "packed_stream_read file s0") auto
  show ?thesis
  proof (cases r)
    case (Some e)
    from packed_stream_read_error [of "file" s0 e s1] rd Some
    have s1: "used s1 = 0" "block_size s1 = block_size s0" by (simp_all add: s0_def)
    have g1: "packed_stream_get file s0 = (Inl e, s1)"
      using rd Some by (simp add: packed_stream_get_def s0_def)
    define s2 where "s2 = packed_stream_seek s1 off"
    have s2: "used s2 = 0" "current s2 = 0" "next_offset s2 = off" "block_size s2 = block_size s0"
      using s1 by (simp_all add: s2_def packed_stream_seek_def)
    have "fst (packed_stream_read file s2) = fst (packed_stream_read file s0)"
      using s2 by (intro packed_stream_read_cong) (simp_all add: s0_def)
    then have "fst (packed_stream_get file s2) = Inl e"
      using s2 rd Some by (cases "packed_stream_read file s2") (simp add: packed_stream_get_def)
    then show ?thesis by (simp add: sk g1 s2_def)
  next
    case None
    from packed_stream_read_success [of "file" s0 s1] rd None
    have s1: "0 < used s1" "current s1 = 0" "start_offset s1 = off"
      "start_offset s1 < next_offset s1" "0 < snd (buffer s1 ! 0)"
      by (simp_all add: s0_def)
    have g1: "packed_stream_get file s0 = (Inr (fst (buffer s1 ! 0)), s1\<lparr>current := 1\<rparr>)"
      using rd None s1 by (simp add: packed_stream_get_def s0_def)
    have "seek_scan (buffer s1) (used s1) 0 0 = 0"
      using s1 by (subst seek_scan.simps) simp
    then have "packed_stream_seek (s1\<lparr>current := 1\<rparr>) off = s1\<lparr>current := 0\<rparr>"
      using s1 by (simp add: packed_stream_seek_def)
    moreover have "fst (packed_stream_get file (s1\<lparr>current := 0\<rparr>)) = Inr (fst (buffer s1 ! 0))"
      using s1 by (simp add: packed_stream_get_def)
    ultimately show ?thesis by (simp add: sk g1)
  qed
next
  case False
  define c where "c = seek_scan (buffer s) (used s) 0 (off - start_offset s)"
  from False inv have nx: "next_offset s = start_offset s + int (snd (buffer s ! (used s - 1)))"
    by (auto simp: stream_inv_def)
  have "c \<le> used s - 1"
    unfolding c_def using False nx by (intro seek_scan_less) auto
  with False have c: "c < used s" by arith
  have sk: "\<And>n. packed_stream_seek (s\<lparr>current := n\<rparr>) off = s\<lparr>current := c\<rparr>"
    using False by (simp add: packed_stream_seek_def c_def)
  have sk0: "packed_stream_seek s off = s\<lparr>current := c\<rparr>"
    using False by (simp add: packed_stream_seek_def c_def)
  have g: "packed_stream_get file (s\<lparr>current := c\<rparr>) = (Inr (fst (buffer s ! c)), s\<lparr>current := c + 1\<rparr>)"
    using c by (simp add: packed_stream_get_def)
  show ?thesis by (simp add: sk0 g sk)
qed

section \<open>Claims about the codec and the stream\<close>

text \<open>
  C4 (packed-integer codec round trip). For every unsigned 64-bit value \<open>v\<close>, a stream
  opened on the bytes \<^verbatim>\<open>encode_uint\<close> produces for \<open>v\<close> reads \<open>v\<close> back with
  \<^verbatim>\<open>packed_stream_get\<close> (the 7-bit continuation scheme of \<^verbatim>\<open>packed_stream_read\<close>).
  For every signed 64-bit value \<open>w\<close>, \<^verbatim>\<open>decode_int\<close> inverts the mapping
  \<open>w < 0 ? -1 - 2w : 2w\<close> of \<^verbatim>\<open>encode_int\<close>, taken modulo \<open>2^64\<close>, also when the
  mapped value travels through the bytes of \<^verbatim>\<open>encode_int\<close>.
\<close>

theorem codec_round_trip:
  "fst (packed_stream_get (encode_uint v) (packed_stream_open bs)) = Inr v
   \<and> decode_int (zigzag w) = w
   \<and> map_sum id decode_int (fst (packed_stream_get (encode_int w) (packed_stream_open bs))) = Inr w"
proof -
  have get: "fst (packed_stream_get (encode_uint u) (packed_stream_open bs)) = Inr u" for u
    using stream_at_get [OF stream_at_open, of "[u]" bs] by auto
  show ?thesis
    by (simp add: get encode_int_def decode_int_zigzag)
qed

text \<open>
  C8 (stream seek/get idempotence). For every stream state that the stream operations
  can produce over a fixed index file (from \<^verbatim>\<open>packed_stream_open\<close> by any number of
  seeks and gets, failed ones included) and every file offset \<open>off\<close>: seek to \<open>off\<close>
  and get, then seek to \<open>off\<close> and get again, yields the same result (the same value,
  or the same error), whether the first seek landed inside or outside the prefetch
  buffer.
\<close>

theorem seek_get_idempotent:
  assumes "s \<in> streams file"
  shows "fst (packed_stream_get file
                (packed_stream_seek (snd (packed_stream_get file (packed_stream_seek s off))) off))
       = fst (packed_stream_get file (packed_stream_seek s off))"
  using assms by (intro seek_get_twice streams_inv)

theorem seek_get_idempotent_witness:
  "snd (packed_stream_get [0x85, 0x01, 0x07] (packed_stream_open 0x10000)) \<in> streams [0x85, 0x01, 0x07]
   \<and> fst (packed_stream_get [0x85, 0x01, 0x07]
         (packed_stream_seek
            (snd (packed_stream_get [0x85, 0x01, 0x07]
                    (packed_stream_seek
                       (snd (packed_stream_get [0x85, 0x01, 0x07] (packed_stream_open 0x10000))) 2)))
            2))
     = fst (packed_stream_get [0x85, 0x01, 0x07]
              (packed_stream_seek
                 (snd (packed_stream_get [0x85, 0x01, 0x07] (packed_stream_open 0x10000))) 2))"
proof -
  have h: "snd (packed_stream_get [0x85, 0x01, 0x07] (packed_stream_open 0x10000)) \<in> streams [0x85, 0x01, 0x07]"
    by (intro streams.get streams.opened)
  show ?thesis using h seek_get_idempotent [OF h, where off = 2] by simp
qed

lemma seek_get_example:
  "fst (packed_stream_get [0x85, 0x01, 0x07]
              (packed_stream_seek
                 (snd (packed_stream_get [0x85, 0x01, 0x07] (packed_stream_open 0x10000))) 2)) = Inr 7"
  by code_simp

section \<open>Lookup in the proto index\<close>

lemma proto_scan_find:
  "proto_scan proto item_index =
     (case find (\<lambda>e. pe_item_index e = item_index) proto of
        None \<Rightarrow> - 1 | Some e \<Rightarrow> pe_offset e - 1)"
  by (induction proto) auto

lemma proto_scan_absent:
  "\<forall>e\<in>set proto. pe_item_index e \<noteq> item_index \<Longrightarrow> proto_scan proto item_index = - 1"
  by (induction proto) auto

lemma proto_scan_first:
  "\<forall>e\<in>set pre. pe_item_index e \<noteq> item_index \<Longrightarrow> pe_item_index x = item_index \<Longrightarrow>
   proto_scan (pre @ x # post) item_index = pe_offset x - 1"
  by (induction pre) auto

text \<open>
  C10 (lookup in the proto index of a transaction). When \<^verbatim>\<open>svn_fs_fs__item_offset\<close>
  is called with a transaction id under logical addressing and the proto index file of
  the transaction can be read, it succeeds, leaves the caches alone and returns the
  offset of the first record of the file, in file order, whose item index is the
  requested one: its offset field minus one. If no record has the requested item
  index, the offset returned is \<open>-1\<close>. A lookup of item index 0 that meets an
  end-of-revision marker (both fields 0) before any other record with item index 0
  matches the marker, and returns \<open>-1\<close> as well.
\<close>

theorem proto_index_lookup_first_match:
  assumes "use_log_addressing fs (id_revision txn + 1)"
    and "l2p_proto_index_file fs txn = Some proto"
  shows "item_offset fs revision (Some txn) item_index =
           Inr (case find (\<lambda>e. pe_item_index e = item_index) proto of
                  None \<Rightarrow> - 1 | Some e \<Rightarrow> pe_offset e - 1, fs)
       \<and> ((\<forall>e\<in>set proto. pe_item_index e \<noteq> item_index) \<longrightarrow>
            item_offset fs revision (Some txn) item_index = Inr (- 1, fs))
       \<and> (\<forall>pre post. proto = pre @ \<lparr>pe_offset = 0, pe_item_index = 0\<rparr> # post
              \<and> (\<forall>e\<in>set pre. pe_item_index e \<noteq> 0) \<longrightarrow>
            item_offset fs revision (Some txn) 0 = Inr (- 1, fs))"
proof -
  have io: "item_offset fs revision (Some txn) i = Inr (proto_scan proto i, fs)" for i
    using assms by (simp add: item_offset_def l2p_proto_index_lookup_def)
  show ?thesis
    by (auto simp: io proto_scan_find [symmetric] proto_scan_absent proto_scan_first)
qed

theorem proto_index_lookup_first_match_witness:
  "use_log_addressing example_txn_fs (id_revision \<lparr>id_revision = 7, id_number = 0\<rparr> + 1)
   \<and> l2p_proto_index_file example_txn_fs \<lparr>id_revision = 7, id_number = 0\<rparr>
       = Some [\<lparr>pe_offset = 10, pe_item_index = 1\<rparr>, \<lparr>pe_offset = 0, pe_item_index = 0\<rparr>,
               \<lparr>pe_offset = 5, pe_item_index = 0\<rparr>]
   \<and> item_offset example_txn_fs 8 (Some \<lparr>id_revision = 7, id_number = 0\<rparr>) 0 = Inr (- 1, example_txn_fs)
   \<and> item_offset example_txn_fs 8 (Some \<lparr>id_revision = 7, id_number = 0\<rparr>) 1 = Inr (9, example_txn_fs)
   \<and> item_offset example_txn_fs 8 (Some \<lparr>id_revision = 7, id_number = 0\<rparr>) 2 = Inr (- 1, example_txn_fs)"
proof -
  let ?txn = "\<lparr>id_revision = 7, id_number = 0\<rparr>"
  let ?proto = "[\<lparr>pe_offset = 10, pe_item_index = 1\<rparr>, \<lparr>pe_offset = 0, pe_item_index = 0\<rparr>,
               \<lparr>pe_offset = 5, pe_item_index = 0\<rparr>]"
  have h1: "use_log_addressing example_txn_fs (id_revision ?txn + 1)"
    by (simp add: example_txn_fs_def)
  have h2: "l2p_proto_index_file example_txn_fs ?txn = Some ?proto"
    by (simp add: example_txn_fs_def)
  show ?thesis
    using h1 h2
      proto_index_lookup_first_match [OF h1 h2, of 8 0]
      proto_index_lookup_first_match [OF h1 h2, of 8 1]
      proto_index_lookup_first_match [OF h1 h2, of 8 2]
    by simp
qed

section \<open>Reading an index file that consists of packed numbers\<close>

lemma handle_at_get:
  assumes "handle_at vs h k" and "k < length vs"
  shows "\<exists>h'. stream_get h = Inr (vs ! k, h') \<and> handle_at vs h' (Suc k)"
proof -
  from assms obtain s' where "packed_stream_get (encode_all vs) (snd h) = (Inr (vs ! k), s')"
    and "stream_at vs s' (Suc k)"
    using stream_at_get [of vs "snd h" k] by (auto simp: handle_at_def)
  with assms show ?thesis by (simp add: stream_get_def handle_at_def)
qed

lemma handle_at_seek:
  assumes "handle_at vs h k0" and "k \<le> length vs"
  shows "handle_at vs (stream_seek h (int (bpos vs k))) k"
  using assms stream_at_seek [of vs "snd h" k0 k] by (simp add: handle_at_def stream_seek_def)

lemma handle_at_offset:
  "handle_at vs h k \<Longrightarrow> stream_offset h = int (bpos vs k)"
  by (simp add: handle_at_def stream_offset_def stream_at_offset)

lemma handle_at_open:
  "handle_at vs (encode_all vs, packed_stream_open bs) 0"
  by (simp add: handle_at_def stream_at_open)

lemma take_Suc_drop: "k < length vs \<Longrightarrow> take (Suc n) (drop k vs) = vs ! k # take n (drop (Suc k) vs)"
  by (simp add: Cons_nth_drop_Suc [symmetric])

lemma read_page_table_index_at:
  assumes "handle_at vs h k" and "k + n \<le> length vs"
  shows "\<exists>h'. read_page_table_index n idx h = Inr (index_sums idx (take n (drop k vs)), h')
            \<and> handle_at vs h' (k + n)"
  using assms
proof (induction n arbitrary: k idx h)
  case 0
  then show ?case by simp
next
  case (Suc n)
  then have k: "k < length vs" by simp
  from handle_at_get [OF Suc.prems(1) k] obtain h1 where
    g: "stream_get h = Inr (vs ! k, h1)" and h1: "handle_at vs h1 (Suc k)" by blast
  from Suc.IH [OF h1, of "(idx + unat (vs ! k)) mod 2 ^ 64"] Suc.prems(2) obtain h2 where
    r: "read_page_table_index n ((idx + unat (vs ! k)) mod 2 ^ 64) h1
          = Inr (index_sums ((idx + unat (vs ! k)) mod 2 ^ 64) (take n (drop (Suc k) vs)), h2)"
    and h2: "handle_at vs h2 (Suc k + n)" by auto
  show ?case
    using g r h2 by (simp add: take_Suc_drop [OF k])
qed

lemma read_page_table_at:
  assumes "handle_at vs h k" and "k + 2 * n \<le> length vs"
  shows "\<exists>h'. read_page_table n h = Inr (table_entries (take (2 * n) (drop k vs)), h')
            \<and> handle_at vs h' (k + 2 * n)"
  using assms
proof (induction n arbitrary: k h)
  case 0
  then show ?case by simp
next
  case (Suc n)
  then have k: "k < length vs" "Suc k < length vs" by simp_all
  from handle_at_get [OF Suc.prems(1) k(1)] obtain h1 where
    g1: "stream_get h = Inr (vs ! k, h1)" and h1: "handle_at vs h1 (Suc k)" by blast
  from handle_at_get [OF h1 k(2)] obtain h2 where
    g2: "stream_get h1 = Inr (vs ! Suc k, h2)" and h2: "handle_at vs h2 (Suc (Suc k))" by blast
  from Suc.IH [OF h2] Suc.prems(2) obtain h3 where
    r: "read_page_table n h2 = Inr (table_entries (take (2 * n) (drop (Suc (Suc k)) vs)), h3)"
    and h3: "handle_at vs h3 (Suc (Suc k) + 2 * n)" by auto
  have "take (2 * Suc n) (drop k vs) = vs ! k # vs ! Suc k # take (2 * n) (drop (Suc (Suc k)) vs)"
    using k by (simp add: take_Suc_drop)
  then show ?case
    using g1 g2 r h3 by simp
qed

lemma read_l2p_offsets_at:
  assumes "handle_at vs h k" and "k + n \<le> length vs"
  shows "\<exists>h'. read_l2p_offsets n last_value h
              = Inr (decode_offsets last_value (take n (drop k vs)), h')
            \<and> handle_at vs h' (k + n)"
  using assms
proof (induction n arbitrary: k last_value h)
  case 0
  then show ?case by simp
next
  case (Suc n)
  then have k: "k < length vs" by simp
  from handle_at_get [OF Suc.prems(1) k] obtain h1 where
    g: "stream_get h = Inr (vs ! k, h1)" and h1: "handle_at vs h1 (Suc k)" by blast
  from Suc.IH [OF h1, of "last_value + decode_int (vs ! k)"] Suc.prems(2) obtain h2 where
    r: "read_l2p_offsets n (last_value + decode_int (vs ! k)) h1
          = Inr (decode_offsets (last_value + decode_int (vs ! k)) (take n (drop (Suc k) vs)), h2)"
    and h2: "handle_at vs h2 (Suc k + n)" by auto
  show ?case
    using g r h2 by (simp add: take_Suc_drop [OF k])
qed

lemma get_l2p_header_body_at:
  assumes op: "auto_open_l2p_index fs stream revision = Inr h0" and h0: "handle_at vs h0 k0"
    and len: "header_end vs \<le> length vs"
  shows "\<exists>h. get_l2p_header_body fs stream revision
           = Inr (parsed_header vs, h,
                  fs\<lparr>l2p_header_cache := (l2p_header_cache fs)
                        ((base_revision fs revision, is_packed_rev fs revision) \<mapsto> parsed_header vs)\<rparr>)
         \<and> handle_at vs h (header_end vs)"
proof -
  from len have "4 \<le> length vs" by (simp add: header_end_def)
  then have l4: "0 < length vs" "1 < length vs" "2 < length vs" "3 < length vs"
    by arith+
  have s0: "handle_at vs (stream_seek h0 0) 0"
    using handle_at_seek [OF h0, of 0] by simp
  from handle_at_get [OF s0 l4(1)] obtain h1 where
    g1: "stream_get (stream_seek h0 0) = Inr (vs ! 0, h1)" and h1: "handle_at vs h1 1" by auto
  from handle_at_get [OF h1 l4(2)] obtain h2 where
    g2: "stream_get h1 = Inr (vs ! 1, h2)" and h2: "handle_at vs h2 2" by (auto simp: numeral_2_eq_2)
  from handle_at_get [OF h2 l4(3)] obtain h3 where
    g3: "stream_get h2 = Inr (vs ! 2, h3)" and h3: "handle_at vs h3 3" by (auto simp: numeral_3_eq_3 numeral_2_eq_2)
  from handle_at_get [OF h3 l4(4)] obtain h4 where
    g4: "stream_get h3 = Inr (vs ! 3, h4)" and h4: "handle_at vs h4 4"
    by (auto simp: eval_nat_numeral)
  from read_page_table_index_at [OF h4, of "header_rev_count vs" 0] len obtain h5 where
    r5: "read_page_table_index (header_rev_count vs) 0 h4
           = Inr (index_sums 0 (take (header_rev_count vs) (drop 4 vs)), h5)"
    and h5: "handle_at vs h5 (4 + header_rev_count vs)"
    by (auto simp: header_end_def)
  from read_page_table_at [OF h5, of "unat (vs ! 3)"] len obtain h6 where
    r6: "read_page_table (unat (vs ! 3)) h5
           = Inr (table_entries (take (2 * unat (vs ! 3)) (drop (4 + header_rev_count vs) vs)), h6)"
    and h6: "handle_at vs h6 (header_end vs)"
    by (auto simp: header_end_def)
  have off: "stream_offset h6 = int (bpos vs (header_end vs))"
    using h6 by (rule handle_at_offset)
  show ?thesis
    using h6
    by (simp add: get_l2p_header_body_def op g1 g2 g3 g4 r5 [unfolded header_rev_count_def]
          r6 [unfolded header_rev_count_def] off parsed_header_def Let_def header_rev_count_def)
qed

lemma get_l2p_page_at:
  assumes op: "auto_open_l2p_index fs stream start_revision = Inr h0" and h0: "handle_at vs h0 k0"
    and off: "pte_offset table_entry = int (bpos vs k)"
    and len: "k + pte_entry_count table_entry \<le> length vs"
  shows "\<exists>h. get_l2p_page fs stream start_revision table_entry
           = Inr (\<lparr> entry_count = pte_entry_count table_entry,
                    offsets = decode_offsets 0 (take (pte_entry_count table_entry) (drop k vs)) \<rparr>, h)
         \<and> handle_at vs h (k + pte_entry_count table_entry)"
proof -
  have k: "k \<le> length vs" using len by simp
  have s: "handle_at vs (stream_seek h0 (pte_offset table_entry)) k"
    using handle_at_seek [OF h0 k] by (simp add: off)
  from read_l2p_offsets_at [OF s len, of 0] obtain h where
    "read_l2p_offsets (pte_entry_count table_entry) 0 (stream_seek h0 (pte_offset table_entry))
       = Inr (decode_offsets 0 (take (pte_entry_count table_entry) (drop k vs)), h)"
    and "handle_at vs h (k + pte_entry_count table_entry)" by blast
  then show ?thesis by (simp add: get_l2p_page_def op)
qed

lemma auto_open_None:
  "l2p_index_file fs revision = Some (encode_all vs) \<Longrightarrow>
   \<exists>h. auto_open_l2p_index fs None revision = Inr h \<and> handle_at vs h 0"
  by (simp add: auto_open_l2p_index_def handle_at_open)

lemma auto_open_Some: "auto_open_l2p_index fs (Some h) revision = Inr h"
  by (simp add: auto_open_l2p_index_def)

lemmas builder_eval =
  l2p_index_create_def l2p_builder_init_def store_mapping_def
  new_revision_def dump_pages.simps encode_l2p_page_def encode_l2p_page_loop.simps
  encode_int_def zigzag_def encode_uint.simps l2p_index_bytes_def word_le_nat_alt upt_rec

lemma scenario1_index:
  "l2p_index_create 4 scenario1 0 = Some (Inr [0, 4, 2, 1, 1, 0, 2, 2, 20, 20])"
  by (simp add: scenario1_def builder_eval)

lemma encode_all_small:
  "\<forall>v\<in>set vs. v < 0x80 \<Longrightarrow> encode_all vs = map ucast vs"
proof (induction vs)
  case Nil
  show ?case by simp
next
  case (Cons v vs)
  then have "v < 0x80" by simp
  then have "v mod 0x80 = v" by (simp add: word_less_nat_alt word_unat_eq_iff unat_mod)
  with Cons show ?case by (simp add: encode_uint_small)
qed

lemma bpos_small:
  "\<forall>v\<in>set vs. v < 0x80 \<Longrightarrow> bpos vs k = min k (length vs)"
proof -
  assume a: "\<forall>v\<in>set vs. v < 0x80"
  then have "\<forall>v\<in>set (take k vs). v < 0x80" by (auto dest: in_set_takeD)
  then show ?thesis by (simp add: bpos_def encode_all_small)
qed

lemma scenario1_header:
  "parsed_header [0, 4, 2, 1, 1, 0, 2, 2, 20, 20] =
     \<lparr> first_revision = 0, revision_count = 2, page_size = 4, page_table_index = [0, 1, 1],
       page_table = [\<lparr> pte_offset = 8, pte_entry_count = 2, pte_size = 2 \<rparr>] \<rparr>"
  by (simp add: parsed_header_def header_rev_count_def header_end_def bpos_small word_less_nat_alt)

lemma scenario1_max_ids:
  "map_sum id fst (l2p_get_max_ids (example_fs False [0, 4, 2, 1, 1, 0, 2, 2, 20, 20]) 0 2)
     = Inr [2, 18446744073709551614]"
proof -
  let ?vs = "[0, 4, 2, 1, 1, 0, 2, 2, 20, 20] :: u64 list"
  let ?fs = "example_fs False [0, 4, 2, 1, 1, 0, 2, 2, 20, 20]"
  have fl: "l2p_index_file ?fs 0 = Some (encode_all ?vs)"
    by (simp add: example_fs_def encode_uint.simps word_le_nat_alt)
  from auto_open_None [OF fl] obtain h0 where
    op: "auto_open_l2p_index ?fs None 0 = Inr h0" and h0: "handle_at ?vs h0 0" by blast
  have len: "header_end ?vs \<le> length ?vs"
    by (simp add: header_end_def header_rev_count_def)
  from get_l2p_header_body_at [OF op h0 len] obtain h where
    body: "get_l2p_header_body ?fs None 0
       = Inr (parsed_header ?vs, h,
              ?fs\<lparr>l2p_header_cache := (l2p_header_cache ?fs)
                     ((base_revision ?fs 0, is_packed_rev ?fs 0) \<mapsto> parsed_header ?vs)\<rparr>)"
    by blast
  have miss: "l2p_header_cache ?fs (base_revision ?fs 0, is_packed_rev ?fs 0) = None"
    by (simp add: example_fs_def)
  show ?thesis
    by (simp add: l2p_get_max_ids_def get_l2p_header_def miss body scenario1_header
          get_max_ids_loop.simps array_read_def)
qed

lemma get_l2p_page_ok:
  assumes "handle_at vs h k0" and "entry_ok vs e"
  shows "\<exists>pg h' k'. get_l2p_page fs (Some h) start_revision e = Inr (pg, h') \<and> handle_at vs h' k'"
proof -
  from assms(2) obtain k where k: "pte_offset e = int (bpos vs k)" "k + pte_entry_count e \<le> length vs"
    by (auto simp: entry_ok_def)
  from get_l2p_page_at [OF auto_open_Some assms(1) k] show ?thesis by blast
qed

lemma prefetch_l2p_pages_loop_ok:
  assumes "handle_at vs h k0" and "\<forall>e\<in>set pages. entry_ok vs e"
  shows "\<exists>end_flag h' k' c'.
           prefetch_l2p_pages_loop h first_rev revision pages ex mn mx i fs
             = Inr (end_flag, h', fs\<lparr>l2p_page_cache := c'\<rparr>)
           \<and> handle_at vs h' k'"
  using assms(1)
proof (induction "length pages - i" arbitrary: i h k0 fs)
  case 0
  then have "\<not> i < length pages" by simp
  then have "prefetch_l2p_pages_loop h first_rev revision pages ex mn mx i fs
      = Inr (False, h, fs\<lparr>l2p_page_cache := l2p_page_cache fs\<rparr>)"
    by (subst prefetch_l2p_pages_loop.simps) simp
  with 0 show ?case by blast
next
  case (Suc d)
  then have i: "i < length pages" by simp
  let ?key = "(nat (revision mod 2 ^ 32), is_packed_rev fs revision, i)"
  have ok: "entry_ok vs (pages ! i)" using assms(2) i by simp
  consider (excl) "int i = ex"
    | (outside) "int i \<noteq> ex" "pte_offset (pages ! i) < mn \<or> pte_offset (pages ! i) + int (pte_size (pages ! i)) > mx"
    | (cached) "int i \<noteq> ex" "\<not> (pte_offset (pages ! i) < mn \<or> pte_offset (pages ! i) + int (pte_size (pages ! i)) > mx)"
        "l2p_page_cache fs ?key \<noteq> None"
    | (fetch) "int i \<noteq> ex" "\<not> (pte_offset (pages ! i) < mn \<or> pte_offset (pages ! i) + int (pte_size (pages ! i)) > mx)"
        "l2p_page_cache fs ?key = None"
    by blast
  then show ?case
  proof cases
    case excl
    have "length pages - (i + 1) = d" using Suc.hyps(2) by simp
    from Suc.hyps(1) [OF this [symmetric] Suc.prems, of fs] obtain e h' k' c' where
      "prefetch_l2p_pages_loop h first_rev revision pages ex mn mx (i + 1) fs
         = Inr (e, h', fs\<lparr>l2p_page_cache := c'\<rparr>)" "handle_at vs h' k'" by blast
    then show ?thesis
      using i excl by (subst prefetch_l2p_pages_loop.simps) (auto simp: Let_def)
  next
    case outside
    then have "prefetch_l2p_pages_loop h first_rev revision pages ex mn mx i fs
        = Inr (True, h, fs\<lparr>l2p_page_cache := l2p_page_cache fs\<rparr>)"
      using i by (subst prefetch_l2p_pages_loop.simps) (auto simp: Let_def)
    with Suc.prems show ?thesis by blast
  next
    case cached
    then have "prefetch_l2p_pages_loop h first_rev revision pages ex mn mx i fs
        = Inr (True, h, fs\<lparr>l2p_page_cache := l2p_page_cache fs\<rparr>)"
      using i by (subst prefetch_l2p_pages_loop.simps) (auto simp: Let_def)
    with Suc.prems show ?thesis by blast
  next
    case fetch
    from get_l2p_page_ok [OF Suc.prems ok, of fs first_rev] obtain pg h1 k1 where
      g: "get_l2p_page fs (Some h) first_rev (pages ! i) = Inr (pg, h1)" and h1: "handle_at vs h1 k1"
      by blast
    have "length pages - (i + 1) = d" using Suc.hyps(2) by simp
    from Suc.hyps(1) [OF this [symmetric] h1, of "fs\<lparr>l2p_page_cache := (l2p_page_cache fs)(?key \<mapsto> pg)\<rparr>"]
    obtain e h' k' c' where
      "prefetch_l2p_pages_loop h1 first_rev revision pages ex mn mx (i + 1)
           (fs\<lparr>l2p_page_cache := (l2p_page_cache fs)(?key \<mapsto> pg)\<rparr>)
         = Inr (e, h', fs\<lparr>l2p_page_cache := c'\<rparr>)" "handle_at vs h' k'" by auto
    then show ?thesis
      using i fetch g by (subst prefetch_l2p_pages_loop.simps) (auto simp: Let_def)
  qed
qed

lemma get_l2p_page_table_cache [simp]:
  "get_l2p_page_table (fs\<lparr>l2p_page_cache := c\<rparr>) revision = get_l2p_page_table fs revision"
  by (simp add: get_l2p_page_table_def base_revision_def)

lemma prefetch_l2p_pages_ok:
  assumes "handle_at vs h k0" and "\<forall>e\<in>set (get_l2p_page_table fs revision). entry_ok vs e"
  shows "\<exists>end_flag h' k' c'.
           prefetch_l2p_pages fs h first_rev revision ex mn mx
             = Inr (end_flag, h', fs\<lparr>l2p_page_cache := c'\<rparr>)
           \<and> handle_at vs h' k'"
proof (cases "length (get_l2p_page_table fs revision) = 0")
  case True
  then have "prefetch_l2p_pages fs h first_rev revision ex mn mx
      = Inr (True, h, fs\<lparr>l2p_page_cache := l2p_page_cache fs\<rparr>)"
    by (simp add: prefetch_l2p_pages_def)
  with assms(1) show ?thesis by blast
next
  case False
  with prefetch_l2p_pages_loop_ok [OF assms, of first_rev revision ex mn mx 0 fs]
  show ?thesis by (simp add: prefetch_l2p_pages_def Let_def)
qed

lemma prefetch_forward_ok:
  assumes "handle_at vs h k0"
    and "\<forall>rev. prefetch_revision \<le> rev \<and> rev < last_revision \<longrightarrow>
           (\<forall>e\<in>set (get_l2p_page_table fs rev). entry_ok vs e)"
  shows "\<exists>h' k' c'.
           prefetch_forward h first_rev revision page_no mn mx last_revision prefetch_revision fs
             = Inr (h', fs\<lparr>l2p_page_cache := c'\<rparr>)
           \<and> handle_at vs h' k'"
  using assms
proof (induction "nat (last_revision - prefetch_revision)" arbitrary: prefetch_revision h k0 fs)
  case 0
  then have "\<not> prefetch_revision < last_revision" by simp
  then have "prefetch_forward h first_rev revision page_no mn mx last_revision prefetch_revision fs
      = Inr (h, fs\<lparr>l2p_page_cache := l2p_page_cache fs\<rparr>)"
    by (subst prefetch_forward.simps) simp
  with 0 show ?case by blast
next
  case (Suc d)
  then have lt: "prefetch_revision < last_revision" by simp
  from Suc.prems(2) lt have "\<forall>e\<in>set (get_l2p_page_table fs prefetch_revision). entry_ok vs e"
    by (meson order_refl)
  from prefetch_l2p_pages_ok [OF Suc.prems(1) this,
      of first_rev "if prefetch_revision = revision then page_no else - 1" mn mx]
  obtain e h1 k1 c1 where
    p: "prefetch_l2p_pages fs h first_rev prefetch_revision
          (if prefetch_revision = revision then page_no else - 1) mn mx
        = Inr (e, h1, fs\<lparr>l2p_page_cache := c1\<rparr>)" and h1: "handle_at vs h1 k1" by blast
  show ?case
  proof (cases e)
    case True
    with p lt h1 show ?thesis by (subst prefetch_forward.simps) auto
  next
    case False
    have d: "d = nat (last_revision - (prefetch_revision + 1))" using Suc.hyps(2) by simp
    have tbl: "\<forall>rev. prefetch_revision + 1 \<le> rev \<and> rev < last_revision \<longrightarrow>
        (\<forall>e\<in>set (get_l2p_page_table (fs\<lparr>l2p_page_cache := c1\<rparr>) rev). entry_ok vs e)"
    proof (intro allI impI)
      fix rev assume "prefetch_revision + 1 \<le> rev \<and> rev < last_revision"
      then have "prefetch_revision \<le> rev \<and> rev < last_revision" by simp
      with Suc.prems(2) have "\<forall>e\<in>set (get_l2p_page_table fs rev). entry_ok vs e" by blast
      then show "\<forall>e\<in>set (get_l2p_page_table (fs\<lparr>l2p_page_cache := c1\<rparr>) rev). entry_ok vs e"
        by simp
    qed
    from Suc.hyps(1) [OF d h1 tbl] obtain h' k' c' where
      "prefetch_forward h1 first_rev revision page_no mn mx last_revision (prefetch_revision + 1)
         (fs\<lparr>l2p_page_cache := c1\<rparr>) = Inr (h', fs\<lparr>l2p_page_cache := c'\<rparr>)"
      "handle_at vs h' k'" by auto
    with p lt False show ?thesis by (subst prefetch_forward.simps) auto
  qed
qed

lemma prefetch_backward_ok:
  assumes "handle_at vs h k0"
    and "\<forall>rev. first_rev \<le> rev \<and> rev \<le> prefetch_revision \<longrightarrow>
           (\<forall>e\<in>set (get_l2p_page_table fs rev). entry_ok vs e)"
  shows "\<exists>h' k' c'.
           prefetch_backward h first_rev mn mx prefetch_revision fs
             = Inr (h', fs\<lparr>l2p_page_cache := c'\<rparr>)
           \<and> handle_at vs h' k'"
  using assms
proof (induction "nat (prefetch_revision - first_rev + 1)" arbitrary: prefetch_revision h k0 fs)
  case 0
  then have "\<not> prefetch_revision \<ge> first_rev" by simp
  then have "prefetch_backward h first_rev mn mx prefetch_revision fs
      = Inr (h, fs\<lparr>l2p_page_cache := l2p_page_cache fs\<rparr>)"
    by (subst prefetch_backward.simps) simp
  with 0 show ?case by blast
next
  case (Suc d)
  then have ge: "prefetch_revision \<ge> first_rev" by simp
  from Suc.prems(2) ge have "\<forall>e\<in>set (get_l2p_page_table fs prefetch_revision). entry_ok vs e"
    by (meson order_refl)
  from prefetch_l2p_pages_ok [OF Suc.prems(1) this, of first_rev "- 1" mn mx]
  obtain e h1 k1 c1 where
    p: "prefetch_l2p_pages fs h first_rev prefetch_revision (- 1) mn mx
        = Inr (e, h1, fs\<lparr>l2p_page_cache := c1\<rparr>)" and h1: "handle_at vs h1 k1" by blast
  show ?case
  proof (cases e)
    case True
    with p ge h1 show ?thesis by (subst prefetch_backward.simps) auto
  next
    case False
    have d: "d = nat (prefetch_revision - 1 - first_rev + 1)" using Suc.hyps(2) by simp
    have tbl: "\<forall>rev. first_rev \<le> rev \<and> rev \<le> prefetch_revision - 1 \<longrightarrow>
        (\<forall>e\<in>set (get_l2p_page_table (fs\<lparr>l2p_page_cache := c1\<rparr>) rev). entry_ok vs e)"
    proof (intro allI impI)
      fix rev assume "first_rev \<le> rev \<and> rev \<le> prefetch_revision - 1"
      then have "first_rev \<le> rev \<and> rev \<le> prefetch_revision" by simp
      with Suc.prems(2) have "\<forall>e\<in>set (get_l2p_page_table fs rev). entry_ok vs e" by blast
      then show "\<forall>e\<in>set (get_l2p_page_table (fs\<lparr>l2p_page_cache := c1\<rparr>) rev). entry_ok vs e"
        by simp
    qed
    from Suc.hyps(1) [OF d h1 tbl] obtain h' k' c' where
      "prefetch_backward h1 first_rev mn mx (prefetch_revision - 1)
         (fs\<lparr>l2p_page_cache := c1\<rparr>) = Inr (h', fs\<lparr>l2p_page_cache := c'\<rparr>)"
      "handle_at vs h' k'" by auto
    with p ge False show ?thesis by (subst prefetch_backward.simps) auto
  qed
qed

lemma get_l2p_page_info_parsed:
  assumes fl: "l2p_index_file fs revision = Some (encode_all vs)"
    and len: "header_end vs \<le> length vs"
    and hc: "\<forall>hd. l2p_header_cache fs (base_revision fs revision, is_packed_rev fs revision) = Some hd
               \<longrightarrow> hd = parsed_header vs"
  shows "(\<exists>e. l2p_page_info_copy (parsed_header vs) revision item_index = Inl e
              \<and> get_l2p_page_info fs None revision item_index = Inl e)
       \<or> (\<exists>info stream hc'.
              l2p_page_info_copy (parsed_header vs) revision item_index = Inr info
            \<and> get_l2p_page_info fs None revision item_index
                = Inr (info, stream, fs\<lparr>l2p_header_cache := hc'\<rparr>)
            \<and> hc' (base_revision fs revision, is_packed_rev fs revision) = Some (parsed_header vs)
            \<and> (\<forall>key. key \<noteq> (base_revision fs revision, is_packed_rev fs revision)
                   \<longrightarrow> hc' key = l2p_header_cache fs key)
            \<and> (\<forall>h. stream = Some h \<longrightarrow> (\<exists>k. handle_at vs h k)))"
proof (cases "l2p_header_cache fs (base_revision fs revision, is_packed_rev fs revision)")
  case None
  from auto_open_None [OF fl] obtain h0 where
    op: "auto_open_l2p_index fs None revision = Inr h0" and h0: "handle_at vs h0 0" by blast
  from get_l2p_header_body_at [OF op h0 len] obtain h where
    body: "get_l2p_header_body fs None revision
       = Inr (parsed_header vs, h,
              fs\<lparr>l2p_header_cache := (l2p_header_cache fs)
                    ((base_revision fs revision, is_packed_rev fs revision) \<mapsto> parsed_header vs)\<rparr>)"
    and h: "handle_at vs h (header_end vs)" by blast
  show ?thesis
  proof (cases "l2p_page_info_copy (parsed_header vs) revision item_index")
    case (Inl e)
    with None body show ?thesis by (simp add: get_l2p_page_info_def)
  next
    case (Inr info)
    have "get_l2p_page_info fs None revision item_index
        = Inr (info, Some h, fs\<lparr>l2p_header_cache := (l2p_header_cache fs)
                    ((base_revision fs revision, is_packed_rev fs revision) \<mapsto> parsed_header vs)\<rparr>)"
      using None body Inr by (simp add: get_l2p_page_info_def)
    with Inr h show ?thesis by auto
  qed
next
  case (Some hd)
  with hc have hd: "hd = parsed_header vs" by simp
  show ?thesis
  proof (cases "l2p_page_info_copy (parsed_header vs) revision item_index")
    case (Inl e)
    with Some hd show ?thesis by (simp add: get_l2p_page_info_def)
  next
    case (Inr info)
    have "get_l2p_page_info fs None revision item_index
        = Inr (info, None, fs\<lparr>l2p_header_cache := l2p_header_cache fs\<rparr>)"
      using Some hd Inr by (simp add: get_l2p_page_info_def)
    with Inr Some hd show ?thesis
      by (intro disjI2 exI [of _ info] exI [of _ None] exI [of _ "l2p_header_cache fs"]) simp
  qed
qed

lemma base_revision_update [simp]:
  "base_revision (fs\<lparr>l2p_header_cache := hc\<rparr>) = base_revision fs"
  "base_revision (fs\<lparr>l2p_page_cache := pc\<rparr>) = base_revision fs"
  by (simp_all add: base_revision_def fun_eq_iff)

lemma get_l2p_page_table_header_cache:
  "hc (base_revision fs revision, is_packed_rev fs revision) = Some hdr \<Longrightarrow>
   get_l2p_page_table (fs\<lparr>l2p_header_cache := hc\<rparr>) revision =
     (let rel_revision = nat ((revision - first_revision hdr) mod 2 ^ 64) in
      if rel_revision < revision_count hdr
      then take (page_table_index hdr ! (rel_revision + 1) - page_table_index hdr ! rel_revision)
             (drop (page_table_index hdr ! rel_revision) (page_table hdr))
      else [])"
  by (simp add: get_l2p_page_table_def)

lemma l2p_index_lookup_hit:
  assumes "get_l2p_page_info fs None revision item_index = Inr (info, stream, fs1)"
    and "l2p_page_cache fs1 (nat (revision mod 2 ^ 32), is_packed_rev fs1 revision, pi_page_no info) = Some page"
  shows "map_sum id fst (l2p_index_lookup fs revision item_index)
       = l2p_page_get_entry page (pi_page_offset info)"
  using assms
  by (cases "l2p_page_get_entry page (pi_page_offset info)") (simp_all add: l2p_index_lookup_def Let_def)

lemma l2p_index_lookup_miss_error:
  assumes "get_l2p_page_info fs None revision item_index = Inr (info, stream, fs1)"
    and "l2p_page_cache fs1 (nat (revision mod 2 ^ 32), is_packed_rev fs1 revision, pi_page_no info) = None"
    and "get_l2p_page fs1 stream (pi_first_revision info) (pi_entry info) = Inr (page, h)"
    and "l2p_page_get_entry page (pi_page_offset info) = Inl e"
  shows "l2p_index_lookup fs revision item_index = Inl e"
  using assms by (simp add: l2p_index_lookup_def Let_def)

lemma l2p_index_lookup_miss:
  assumes "get_l2p_page_info fs None revision item_index = Inr (info, stream, fs1)"
    and "l2p_page_cache fs1 (nat (revision mod 2 ^ 32), is_packed_rev fs1 revision, pi_page_no info) = None"
    and "get_l2p_page fs1 stream (pi_first_revision info) (pi_entry info) = Inr (page, h)"
    and "l2p_page_get_entry page (pi_page_offset info) = Inr off"
    and "prefetch_forward h (pi_first_revision info) revision (int (pi_page_no info))
           (APR_ALIGN (pte_offset (pi_entry info) + int (pte_size (pi_entry info))) 0x10000 - 0x10000)
           (APR_ALIGN (pte_offset (pi_entry info) + int (pte_size (pi_entry info))) 0x10000)
           (pi_first_revision info + (if is_packed_rev fs1 revision then max_files_per_dir fs1 else 1))
           revision
           (fs1\<lparr>l2p_page_cache := (l2p_page_cache fs1)
                   ((nat (revision mod 2 ^ 32), is_packed_rev fs1 revision, pi_page_no info) \<mapsto> page)\<rparr>)
         = Inr (h', fs3)"
    and "prefetch_backward h' (pi_first_revision info)
           (APR_ALIGN (pte_offset (pi_entry info) + int (pte_size (pi_entry info))) 0x10000 - 0x10000)
           (APR_ALIGN (pte_offset (pi_entry info) + int (pte_size (pi_entry info))) 0x10000)
           (revision - 1) fs3 = Inr (h'', fs4)"
  shows "l2p_index_lookup fs revision item_index = Inr (off, fs4)"
  using assms by (simp add: l2p_index_lookup_def Let_def split del: if_split)

lemma l2p_index_lookup_parsed:
  assumes fl: "l2p_index_file fs revision = Some (encode_all vs)"
    and fl1: "l2p_index_file fs (first_revision (parsed_header vs)) = Some (encode_all vs)"
    and len: "header_end vs \<le> length vs"
    and hc: "\<forall>hd. l2p_header_cache fs (base_revision fs revision, is_packed_rev fs revision) = Some hd
               \<longrightarrow> hd = parsed_header vs"
    and info: "l2p_page_info_copy (parsed_header vs) revision item_index = Inr info"
    and off: "pte_offset (pi_entry info) = int (bpos vs k)"
    and klen: "k + pte_entry_count (pi_entry info) \<le> length vs"
    and pc: "\<forall>pg. l2p_page_cache fs (nat (revision mod 2 ^ 32), is_packed_rev fs revision, pi_page_no info) = Some pg
               \<longrightarrow> pg = decoded_page vs k (pte_entry_count (pi_entry info))"
    and tbl: "\<And>hc' rev. hc' (base_revision fs revision, is_packed_rev fs revision) = Some (parsed_header vs) \<Longrightarrow>
               (\<forall>key. key \<noteq> (base_revision fs revision, is_packed_rev fs revision) \<longrightarrow> hc' key = l2p_header_cache fs key) \<Longrightarrow>
               first_revision (parsed_header vs) \<le> rev \<Longrightarrow>
               rev < first_revision (parsed_header vs) + (if is_packed_rev fs revision then max_files_per_dir fs else 1)
                 \<or> rev < revision \<Longrightarrow>
               \<forall>e\<in>set (get_l2p_page_table (fs\<lparr>l2p_header_cache := hc'\<rparr>) rev). entry_ok vs e"
    and rev: "first_revision (parsed_header vs) \<le> revision"
  shows "map_sum id fst (l2p_index_lookup fs revision item_index)
       = l2p_page_get_entry (decoded_page vs k (pte_entry_count (pi_entry info))) (pi_page_offset info)"
proof -
  let ?hkey = "(base_revision fs revision, is_packed_rev fs revision)"
  let ?n = "pte_entry_count (pi_entry info)"
  let ?pg = "decoded_page vs k ?n"
  from get_l2p_page_info_parsed [OF fl len hc, of item_index] info obtain stream hc' where
    gi: "get_l2p_page_info fs None revision item_index = Inr (info, stream, fs\<lparr>l2p_header_cache := hc'\<rparr>)"
    and hc'K: "hc' ?hkey = Some (parsed_header vs)"
    and hc'o: "\<forall>key. key \<noteq> ?hkey \<longrightarrow> hc' key = l2p_header_cache fs key"
    and st: "\<forall>h. stream = Some h \<longrightarrow> (\<exists>k. handle_at vs h k)"
    by auto
  let ?fs1 = "fs\<lparr>l2p_header_cache := hc'\<rparr>"
  let ?key = "(nat (revision mod 2 ^ 32), is_packed_rev fs revision, pi_page_no info)"
  have fi: "pi_first_revision info = first_revision (parsed_header vs)"
    using info by (auto simp: l2p_page_info_copy_def Let_def split: if_splits sum.splits)
  show ?thesis
  proof (cases "l2p_page_cache fs ?key")
    case (Some pg)
    with pc have "pg = ?pg" by simp
    with Some gi show ?thesis
      by (intro l2p_index_lookup_hit [where stream = stream and ?fs1.0 = ?fs1]) simp_all
  next
    case None
    have "\<exists>h0 k0. auto_open_l2p_index ?fs1 stream (pi_first_revision info) = Inr h0 \<and> handle_at vs h0 k0"
    proof (cases stream)
      case None
      have "l2p_index_file ?fs1 (pi_first_revision info) = Some (encode_all vs)"
        using fl1 fi by simp
      from auto_open_None [OF this] None show ?thesis by blast
    next
      case (Some h)
      with st show ?thesis by (auto simp: auto_open_Some)
    qed
    then obtain h0 k0 where op: "auto_open_l2p_index ?fs1 stream (pi_first_revision info) = Inr h0"
      and h0: "handle_at vs h0 k0" by blast
    from get_l2p_page_at [OF op h0 off klen] obtain h where
      gp: "get_l2p_page ?fs1 stream (pi_first_revision info) (pi_entry info) = Inr (?pg, h)"
      and h: "handle_at vs h (k + ?n)" by (auto simp: decoded_page_def)
    show ?thesis
    proof (cases "l2p_page_get_entry ?pg (pi_page_offset info)")
      case (Inl e)
      have "l2p_index_lookup fs revision item_index = Inl e"
        by (rule l2p_index_lookup_miss_error [OF gi _ gp Inl]) (use None in simp)
      with Inl show ?thesis by simp
    next
      case (Inr v)
      let ?fs2 = "?fs1\<lparr>l2p_page_cache := (l2p_page_cache ?fs1)(?key \<mapsto> ?pg)\<rparr>"
      let ?last = "pi_first_revision info + (if is_packed_rev fs revision then max_files_per_dir fs else 1)"
      let ?mx = "APR_ALIGN (pte_offset (pi_entry info) + int (pte_size (pi_entry info))) 0x10000"
      have tbl2: "\<And>r c. first_revision (parsed_header vs) \<le> r \<Longrightarrow> r < ?last \<or> r < revision \<Longrightarrow>
          \<forall>e\<in>set (get_l2p_page_table (?fs1\<lparr>l2p_page_cache := c\<rparr>) r). entry_ok vs e"
        using tbl [OF hc'K hc'o] fi by simp
      have tblf: "\<forall>r. revision \<le> r \<and> r < ?last \<longrightarrow>
          (\<forall>e\<in>set (get_l2p_page_table ?fs2 r). entry_ok vs e)"
      proof (intro allI impI)
        fix r assume "revision \<le> r \<and> r < ?last"
        with rev have "first_revision (parsed_header vs) \<le> r" "r < ?last \<or> r < revision" by auto
        from tbl2 [OF this] show "\<forall>e\<in>set (get_l2p_page_table ?fs2 r). entry_ok vs e" .
      qed
      from prefetch_forward_ok [OF h tblf, of "pi_first_revision info" revision "int (pi_page_no info)"
          "?mx - 0x10000" ?mx]
      obtain h1 k1 c1 where
        pf: "prefetch_forward h (pi_first_revision info) revision (int (pi_page_no info))
               (?mx - 0x10000) ?mx ?last revision ?fs2 = Inr (h1, ?fs2\<lparr>l2p_page_cache := c1\<rparr>)"
        and h1: "handle_at vs h1 k1" by blast
      have tblb: "\<forall>r. pi_first_revision info \<le> r \<and> r \<le> revision - 1 \<longrightarrow>
          (\<forall>e\<in>set (get_l2p_page_table (?fs2\<lparr>l2p_page_cache := c1\<rparr>) r). entry_ok vs e)"
      proof (intro allI impI)
        fix r assume "pi_first_revision info \<le> r \<and> r \<le> revision - 1"
        with fi have "first_revision (parsed_header vs) \<le> r" "r < ?last \<or> r < revision" by auto
        from tbl2 [OF this, of c1] show "\<forall>e\<in>set (get_l2p_page_table (?fs2\<lparr>l2p_page_cache := c1\<rparr>) r). entry_ok vs e"
          by simp
      qed
      from prefetch_backward_ok [OF h1 tblb, of "?mx - 0x10000" ?mx]
      obtain h2 k2 c2 where
        pb: "prefetch_backward h1 (pi_first_revision info) (?mx - 0x10000) ?mx (revision - 1)
               (?fs2\<lparr>l2p_page_cache := c1\<rparr>) = Inr (h2, ?fs2\<lparr>l2p_page_cache := c1, l2p_page_cache := c2\<rparr>)"
        by auto
      have "l2p_index_lookup fs revision item_index
          = Inr (v, ?fs2\<lparr>l2p_page_cache := c1, l2p_page_cache := c2\<rparr>)"
      proof (rule l2p_index_lookup_miss [OF gi _ gp Inr])
        show "l2p_page_cache ?fs1 (nat (revision mod 2 ^ 32), is_packed_rev ?fs1 revision, pi_page_no info) = None"
          using None by simp
        show "prefetch_forward h (pi_first_revision info) revision (int (pi_page_no info))
           (?mx - 0x10000) ?mx
           (pi_first_revision info + (if is_packed_rev ?fs1 revision then max_files_per_dir ?fs1 else 1))
           revision
           (?fs1\<lparr>l2p_page_cache := (l2p_page_cache ?fs1)
                   ((nat (revision mod 2 ^ 32), is_packed_rev ?fs1 revision, pi_page_no info) \<mapsto> ?pg)\<rparr>)
         = Inr (h1, ?fs2\<lparr>l2p_page_cache := c1\<rparr>)"
          using pf by (simp split del: if_split cong: if_cong)
        show "prefetch_backward h1 (pi_first_revision info) (?mx - 0x10000) ?mx (revision - 1)
            (?fs2\<lparr>l2p_page_cache := c1\<rparr>) = Inr (h2, ?fs2\<lparr>l2p_page_cache := c1, l2p_page_cache := c2\<rparr>)"
          by (rule pb)
      qed
      with Inr show ?thesis by simp
    qed
  qed
qed

section \<open>The pages the builder writes\<close>

lemma deltas_length [simp]: "length (deltas l vs) = length vs"
  by (induction vs arbitrary: l) auto

lemma decode_offsets_deltas: "decode_offsets l (deltas l vs) = map (\<lambda>x. x - 1) vs"
  by (induction vs arbitrary: l) (auto simp: decode_int_zigzag)

lemma encode_l2p_page_loop_eq:
  "end_idx \<le> length vals \<Longrightarrow> i \<le> end_idx \<Longrightarrow>
   encode_l2p_page_loop vals i end_idx l buf
     = buf @ encode_all (deltas l (take (end_idx - i) (drop i vals)))"
proof (induction "end_idx - i" arbitrary: i l buf)
  case 0
  then show ?case by (subst encode_l2p_page_loop.simps) simp
next
  case (Suc d)
  then have i: "i < end_idx" "i < length vals" by simp_all
  have d: "d = end_idx - (i + 1)" using Suc.hyps(2) by simp
  have "end_idx - i = Suc (end_idx - (i + 1))" using i by simp
  then have tk: "take (end_idx - i) (drop i vals) = vals ! i # take (end_idx - (i + 1)) (drop (i + 1) vals)"
    using take_Suc_drop [OF i(2), of "end_idx - (i + 1)"] by simp
  show ?case
    using Suc.hyps(1) [OF d Suc.prems(1), of "vals ! i" "buf @ encode_int (vals ! i - l)"] i
    by (subst encode_l2p_page_loop.simps) (simp add: tk encode_int_def)
qed

lemma encode_l2p_page_eq:
  "i + n \<le> length vals \<Longrightarrow>
   encode_l2p_page vals i (i + n) buf = buf @ encode_all (deltas 0 (take n (drop i vals)))"
  using encode_l2p_page_loop_eq [of "i + n" vals i 0 buf] by (simp add: encode_l2p_page_def)

lemma page_number_pos: "0 < P \<Longrightarrow> 0 < n \<Longrightarrow> 0 < page_number P n"
  by (simp add: page_number_def div_greater_zero_iff)

lemma page_number_less: "0 < P \<Longrightarrow> p < page_number P n \<longleftrightarrow> p * P < n"
proof -
  assume P: "0 < P"
  have "p < (n + P - 1) div P \<longleftrightarrow> (p + 1) * P \<le> n + P - 1"
    using P by (simp add: less_eq_div_iff_mult_less_eq Suc_le_eq [symmetric])
  also have "\<dots> \<longleftrightarrow> p * P < n" using P by (cases P) auto
  finally show ?thesis by (simp add: page_number_def)
qed

lemma raw_pages_step:
  "p < page_number P (length E) \<Longrightarrow>
   raw_pages P E p = deltas 0 (page_chunk P E p) # raw_pages P E (Suc p)"
  by (simp add: raw_pages_def upt_conv_Cons)

lemma raw_pages_done: "\<not> p < page_number P (length E) \<Longrightarrow> raw_pages P E p = []"
  by (simp add: raw_pages_def)

lemma dump_pages_eq:
  assumes P: "0 < P"
  shows "i = min (p * P) (length (entries b)) \<Longrightarrow>
   dump_pages P i b
     = Some (b\<lparr> spill := spill b @ concat (map encode_all (raw_pages P (entries b) p)),
                entry_counts := entry_counts b @ map length (raw_pages P (entries b) p),
                page_sizes := page_sizes b
                   @ map (\<lambda>pg. length (encode_all pg)) (raw_pages P (entries b) p) \<rparr>)"
proof (induction "page_number P (length (entries b)) - p" arbitrary: p i b)
  case 0
  then have np: "\<not> p < page_number P (length (entries b))" by simp
  then have "\<not> p * P < length (entries b)" using page_number_less [OF P] by simp
  with 0 have "\<not> i < length (entries b)" by simp
  then show ?case
    using np by (subst dump_pages.simps) (simp add: raw_pages_done)
next
  case (Suc d)
  let ?E = "entries b"
  from Suc have lt: "p < page_number P (length ?E)" by simp
  then have pl: "p * P < length ?E" using page_number_less [OF P] by simp
  with Suc.prems have i: "i = p * P" "i < length ?E" by simp_all
  let ?cnt = "min (length ?E - i) P"
  let ?chunk = "deltas 0 (page_chunk P ?E p)"
  have chunk: "take ?cnt (drop i ?E) = page_chunk P ?E p"
    by (simp add: page_chunk_def i min_def)
  have "i + ?cnt \<le> length ?E" using i by simp
  from encode_l2p_page_eq [OF this, of "spill b"]
  have enc: "encode_l2p_page ?E i (i + ?cnt) (spill b) = spill b @ encode_all ?chunk"
    by (simp only: chunk)
  let ?b' = "b\<lparr> spill := spill b @ encode_all ?chunk,
                 entry_counts := entry_counts b @ [?cnt],
                 page_sizes := page_sizes b @ [length (encode_all ?chunk)] \<rparr>"
  have step: "dump_pages P i b = dump_pages P (i + ?cnt) ?b'"
    using i(2) by (subst dump_pages.simps) (simp add: enc)
  have next_i: "i + ?cnt = min (Suc p * P) (length (entries ?b'))"
    using i by (auto simp: min_def)
  have d: "d = page_number P (length (entries ?b')) - Suc p" using Suc.hyps(2) by simp
  have cl: "length (page_chunk P ?E p) = ?cnt"
    by (simp add: page_chunk_def i min_def)
  show ?case
    using Suc.hyps(1) [OF d next_i]
    by (simp add: step raw_pages_step [OF lt] cl)
qed

lemma new_revision_eq:
  assumes P: "0 < P"
  shows "new_revision P b
     = Some (b\<lparr> spill := spill b @ concat (map encode_all (raw_pages P (entries b) 0)),
                entry_counts := entry_counts b @ map length (raw_pages P (entries b) 0),
                page_sizes := page_sizes b
                   @ map (\<lambda>pg. length (encode_all pg)) (raw_pages P (entries b) 0),
                entries := [],
                page_counts := page_counts b
                   @ [length (page_sizes b) + length (raw_pages P (entries b) 0) - last_page_count b],
                last_page_count := length (page_sizes b) + length (raw_pages P (entries b) 0) \<rparr>)"
  using dump_pages_eq [OF P, of 0 0 b] by (simp add: new_revision_def)

section \<open>The index the builder writes for one revision\<close>

lemma int_index: "unat (i::u64) < 2147483647 \<Longrightarrow> sint (ucast i :: 32 word) = int (unat i)"
proof -
  assume a: "unat i < 2147483647"
  have ui: "uint i = int (unat i)" by (rule uint_nat)
  have u: "0 \<le> uint i" "uint i < 2147483648"
    using a unfolding ui by linarith+
  have "uint (ucast i :: 32 word) = uint i mod 4294967296"
    by (simp add: unsigned_ucast_eq take_bit_eq_mod)
  also have "\<dots> = uint i" using u by simp
  finally have eq: "uint (ucast i :: 32 word) = uint i" .
  have "sint (ucast i :: 32 word) = signed_take_bit 31 (uint (ucast i :: 32 word))"
    by (simp add: sint_uint)
  also have "\<dots> = signed_take_bit 31 (uint i)" by (simp only: eq)
  also have "\<dots> = uint i"
  proof (rule signed_take_bit_int_eq_self)
    show "- (2 ^ 31) \<le> uint i" by (rule order_trans [of _ 0]) simp_all
    show "uint i < 2 ^ 31" using u by simp
  qed
  finally show ?thesis by (simp only: uint_nat)
qed

lemma sint_revision: "- (2 ^ 63) \<le> r \<Longrightarrow> r < 2 ^ 63 \<Longrightarrow> sint (word_of_int r :: u64) = r"
  by (simp add: sint_sbintrunc' signed_take_bit_int_eq_self)

lemma unat_of_nat64: "n < 2 ^ 64 \<Longrightarrow> unat (of_nat n :: u64) = n"
  by (simp add: unsigned_of_nat take_bit_eq_mod)

lemma store_mapping_data:
  "data_record e \<Longrightarrow>
   store_mapping e b = Inr (b\<lparr>entries := store_all [e] (entries b)\<rparr>)"
  by (simp add: store_mapping_def data_record_def int_index Let_def)

lemma store_all_append: "store_all (xs @ ys) E = store_all ys (store_all xs E)"
  by (induction xs arbitrary: E) auto

lemma process_entries_data:
  "\<forall>e\<in>set recs. data_record e \<Longrightarrow>
   process_entries P (recs @ rest) entry b
     = process_entries P rest (entry + length recs) (b\<lparr>entries := store_all recs (entries b)\<rparr>)"
proof (induction recs arbitrary: entry b)
  case Nil
  show ?case by simp
next
  case (Cons e es)
  then have e: "data_record e" by simp
  then have ne: "pe_offset e \<noteq> 0" by (simp add: data_record_def)
  from Cons.prems have es: "\<forall>e\<in>set es. data_record e" by simp
  show ?case
    using Cons.IH [OF es, of "entry + 1" "b\<lparr>entries := store_all [e] (entries b)\<rparr>"]
    by (simp add: store_mapping_data [OF e] ne)
qed

lemma store_all_length_ge: "length E \<le> length (store_all recs E)"
proof (induction recs arbitrary: E)
  case Nil
  show ?case by simp
next
  case (Cons e es)
  let ?E' = "(E @ replicate (unat (pe_item_index e) + 1 - length E) 0)
                     [unat (pe_item_index e) := pe_offset e]"
  have "length E \<le> length ?E'" by simp
  also have "\<dots> \<le> length (store_all es ?E')" by (rule Cons.IH)
  finally show ?case by simp
qed

lemma store_all_index_less:
  "e \<in> set recs \<Longrightarrow> unat (pe_item_index e) < length (store_all recs E)"
proof (induction recs arbitrary: E)
  case Nil
  then show ?case by simp
next
  case (Cons x xs)
  let ?E' = "(E @ replicate (unat (pe_item_index x) + 1 - length E) 0)[unat (pe_item_index x) := pe_offset x]"
  show ?case
  proof (cases "e = x")
    case True
    have "unat (pe_item_index x) < length ?E'" by simp
    also have "\<dots> \<le> length (store_all xs ?E')" by (rule store_all_length_ge)
    finally show ?thesis using True by simp
  next
    case False
    with Cons show ?thesis by simp
  qed
qed

lemma store_all_untouched:
  "\<forall>e\<in>set recs. unat (pe_item_index e) \<noteq> i \<Longrightarrow> i < length (store_all recs E) \<Longrightarrow>
   store_all recs E ! i = (if i < length E then E ! i else 0)"
proof (induction recs arbitrary: E)
  case Nil
  then show ?case by simp
next
  case (Cons x xs)
  let ?E' = "(E @ replicate (unat (pe_item_index x) + 1 - length E) 0)[unat (pe_item_index x) := pe_offset x]"
  from Cons.prems have ne: "unat (pe_item_index x) \<noteq> i" and rest: "\<forall>e\<in>set xs. unat (pe_item_index e) \<noteq> i"
    and len: "i < length (store_all xs ?E')" by simp_all
  have "store_all xs ?E' ! i = (if i < length ?E' then ?E' ! i else 0)"
    by (rule Cons.IH [OF rest len])
  also have "\<dots> = (if i < length E then E ! i else 0)"
    using ne by (auto simp: nth_append)
  finally show ?case by simp
qed

lemma store_all_stored:
  "distinct (map pe_item_index recs) \<Longrightarrow> e \<in> set recs \<Longrightarrow>
   store_all recs E ! unat (pe_item_index e) = pe_offset e"
proof (induction recs arbitrary: E)
  case Nil
  then show ?case by simp
next
  case (Cons x xs)
  let ?E' = "(E @ replicate (unat (pe_item_index x) + 1 - length E) 0)[unat (pe_item_index x) := pe_offset x]"
  show ?case
  proof (cases "e \<in> set xs")
    case True
    with Cons show ?thesis by simp
  next
    case False
    with Cons.prems have ex: "e = x" by simp
    have "\<forall>y\<in>set xs. unat (pe_item_index y) \<noteq> unat (pe_item_index x)"
    proof (intro ballI notI)
      fix y assume y: "y \<in> set xs" and "unat (pe_item_index y) = unat (pe_item_index x)"
      then have "pe_item_index y = pe_item_index x" by (simp add: word_unat_eq_iff)
      with y have "pe_item_index x \<in> pe_item_index ` set xs" by (metis imageI)
      with Cons.prems(1) show False by simp
    qed
    moreover have lt: "unat (pe_item_index x) < length ?E'" by simp
    then have "unat (pe_item_index x) < length (store_all xs ?E')"
      using store_all_length_ge [of ?E' xs] by (rule less_le_trans)
    moreover note this
    ultimately have "store_all xs ?E' ! unat (pe_item_index x)
        = (if unat (pe_item_index x) < length ?E' then ?E' ! unat (pe_item_index x) else 0)"
      by (intro store_all_untouched)
    also have "\<dots> = ?E' ! unat (pe_item_index x)" using lt by (simp only: if_True)
    also have "\<dots> = pe_offset x" using lt by (simp only: length_list_update nth_list_update_eq)
    finally show ?thesis using ex by simp
  qed
qed

text \<open>
  C6 (item counts from \<^verbatim>\<open>svn_fs_fs__l2p_get_max_ids\<close>). The proto index \<open>scenario1\<close>
  describes a first revision with two items and a second revision with none; the builder
  writes one page for the first revision and no page for the second. Asked for both
  revisions, \<^verbatim>\<open>svn_fs_fs__l2p_get_max_ids\<close> returns 2 for the first one, and for the second
  one \<open>(0 - 1) * 4 + 2\<close> modulo \<open>2 ^ 64\<close>, where 2 is the entry count of the page of
  the first revision: the page-less revision is not given the item count 0.
\<close>

theorem get_max_ids_zero_item_revision:
  "l2p_index_create 4 scenario1 0 = Some (Inr [0, 4, 2, 1, 1, 0, 2, 2, 20, 20])
   \<and> map_sum id fst (l2p_get_max_ids (example_fs False [0, 4, 2, 1, 1, 0, 2, 2, 20, 20]) 0 2)
       = Inr [2, 18446744073709551614]"
  using scenario1_index scenario1_max_ids by simp

lemma page_table_entries_ok:
  assumes "\<forall>e\<in>set (page_table hdr). entry_ok vs e"
    and "hc (base_revision fs r, is_packed_rev fs r) = Some hdr"
  shows "\<forall>e\<in>set (get_l2p_page_table (fs\<lparr>l2p_header_cache := hc\<rparr>) r). entry_ok vs e"
  using assms get_l2p_page_table_header_cache [where hc = hc and fs = fs and revision = r and hdr = hdr]
  by (auto simp: Let_def dest!: in_set_takeD in_set_dropD)

lemma scenario2_index:
  "l2p_index_create 4 scenario2 0 = Some (Inr [0, 4, 3, 2, 1, 0, 1, 1, 1, 1, 1, 20, 40])"
  by (simp add: scenario2_def builder_eval)

lemma scenario2_header:
  "parsed_header [0, 4, 3, 2, 1, 0, 1, 1, 1, 1, 1, 20, 40] =
     \<lparr> first_revision = 0, revision_count = 3, page_size = 4, page_table_index = [0, 1, 1, 2],
       page_table = [\<lparr> pte_offset = 11, pte_entry_count = 1, pte_size = 1 \<rparr>,
                     \<lparr> pte_offset = 12, pte_entry_count = 1, pte_size = 1 \<rparr>] \<rparr>"
  by (simp add: parsed_header_def header_rev_count_def header_end_def bpos_small word_less_nat_alt)

lemma scenario2_lookup:
  "map_sum id fst (l2p_index_lookup (example_fs True [0, 4, 3, 2, 1, 0, 1, 1, 1, 1, 1, 20, 40]) 1 0)
     = Inr 19"
proof -
  let ?vs = "[0, 4, 3, 2, 1, 0, 1, 1, 1, 1, 1, 20, 40] :: u64 list"
  let ?fs = "example_fs True [0, 4, 3, 2, 1, 0, 1, 1, 1, 1, 1, 20, 40]"
  let ?info = "\<lparr> pi_entry = \<lparr> pte_offset = 12, pte_entry_count = 1, pte_size = 1 \<rparr>,
                  pi_page_no = 0, pi_page_offset = 0, pi_first_revision = 0 \<rparr>"
  have small: "\<forall>v\<in>set ?vs. v < 0x80" by (simp add: word_less_nat_alt)
  have enc: "encode_all ?vs = [0, 4, 3, 2, 1, 0, 1, 1, 1, 1, 1, 20, 40]"
    by (simp add: encode_uint.simps word_le_nat_alt)
  have fl: "l2p_index_file ?fs 1 = Some (encode_all ?vs)"
    unfolding enc by (simp add: example_fs_def)
  have fl1: "l2p_index_file ?fs (first_revision (parsed_header ?vs)) = Some (encode_all ?vs)"
    unfolding enc scenario2_header by (simp add: example_fs_def)
  have len: "header_end ?vs \<le> length ?vs"
    by (simp add: header_end_def header_rev_count_def)
  have hc: "\<forall>hd. l2p_header_cache ?fs (base_revision ?fs 1, is_packed_rev ?fs 1) = Some hd
               \<longrightarrow> hd = parsed_header ?vs"
    by (simp add: example_fs_def)
  have info: "l2p_page_info_copy (parsed_header ?vs) 1 0 = Inr ?info"
    unfolding scenario2_header by (simp add: l2p_page_info_copy_def array_read_def)
  have off: "pte_offset (pi_entry ?info) = int (bpos ?vs 12)"
    by (simp add: bpos_small [OF small])
  have klen: "12 + pte_entry_count (pi_entry ?info) \<le> length ?vs" by simp
  have pc: "\<forall>pg. l2p_page_cache ?fs (nat (1 mod 2 ^ 32), is_packed_rev ?fs 1, pi_page_no ?info) = Some pg
               \<longrightarrow> pg = decoded_page ?vs 12 (pte_entry_count (pi_entry ?info))"
    by (simp add: example_fs_def)
  have ok: "\<forall>e\<in>set (page_table (parsed_header ?vs)). entry_ok ?vs e"
  proof -
    have "entry_ok ?vs \<lparr> pte_offset = 11, pte_entry_count = 1, pte_size = 1 \<rparr>"
      unfolding entry_ok_def by (rule exI [of _ 11]) (simp add: bpos_small [OF small])
    moreover have "entry_ok ?vs \<lparr> pte_offset = 12, pte_entry_count = 1, pte_size = 1 \<rparr>"
      unfolding entry_ok_def by (rule exI [of _ 12]) (simp add: bpos_small [OF small])
    ultimately show ?thesis unfolding scenario2_header by simp
  qed
  have tbl: "\<forall>e\<in>set (get_l2p_page_table (?fs\<lparr>l2p_header_cache := hc'\<rparr>) r). entry_ok ?vs e"
    if "hc' (base_revision ?fs 1, is_packed_rev ?fs 1) = Some (parsed_header ?vs)"
      and "\<forall>key. key \<noteq> (base_revision ?fs 1, is_packed_rev ?fs 1) \<longrightarrow> hc' key = l2p_header_cache ?fs key"
      and "first_revision (parsed_header ?vs) \<le> r"
      and "r < first_revision (parsed_header ?vs) + (if is_packed_rev ?fs 1 then max_files_per_dir ?fs else 1)
                 \<or> r < 1"
    for hc' r
  proof -
    from that(3,4) have r: "0 \<le> r" "r < 4"
      unfolding scenario2_header by (auto simp: example_fs_def)
    then have "r = 0 \<or> r = 1 \<or> r = 2 \<or> r = 3" by arith
    then have key: "(base_revision ?fs r, is_packed_rev ?fs r) = (base_revision ?fs 1, is_packed_rev ?fs 1)"
      by (auto simp: base_revision_def example_fs_def)
    show ?thesis
      by (rule page_table_entries_ok [OF ok]) (simp only: key that(1))
  qed
  have rev: "first_revision (parsed_header ?vs) \<le> 1" unfolding scenario2_header by simp
  have "map_sum id fst (l2p_index_lookup ?fs 1 0)
       = l2p_page_get_entry (decoded_page ?vs 12 (pte_entry_count (pi_entry ?info))) (pi_page_offset ?info)"
    by (rule l2p_index_lookup_parsed [OF fl fl1 len hc info off klen pc tbl rev])
  also have "\<dots> = Inr 19"
    by (simp add: l2p_page_get_entry_def decoded_page_def array_read_def decode_int_def)
  finally show ?thesis .
qed

text \<open>
  C5 (error classification of \<^verbatim>\<open>l2p_index_lookup\<close>). The proto index \<open>scenario2\<close>
  describes three revisions: one item, no item, one item. The builder writes the pages per
  revision 1, 0, 1. A lookup of item 0 in the middle revision, which has no item, does not
  fail with \<open>Item_index_overflow\<close>: the branch of \<^verbatim>\<open>l2p_page_info_copy\<close> for an item
  index below the page size takes the page table entry at the first page index of the
  revision without comparing it with the last one, which here is the page of the following
  revision, and the lookup returns that revision's item offset 19.
\<close>

theorem lookup_in_zero_item_revision:
  "l2p_index_create 4 scenario2 0 = Some (Inr [0, 4, 3, 2, 1, 0, 1, 1, 1, 1, 1, 20, 40])
   \<and> map_sum id fst
         (l2p_index_lookup (example_fs True [0, 4, 3, 2, 1, 0, 1, 1, 1, 1, 1, 20, 40]) 1 0)
       = Inr 19"
  using scenario2_index scenario2_lookup by simp

end
